theory Spec2Isabelle
  imports Main "HOL-Library.Extended_Nat"
begin

section \<open>Data model of \<open>algorithms.py\<close>\<close>

text \<open>
  Page numbers are Python integers, the frame size is a Python integer (nothing in
  \<open>algorithms.py\<close> restricts its sign). Every exception the code can raise is a value
  of \<open>py_error\<close>; a policy returns \<open>Inl\<close> of it, or \<open>Inr\<close> of the dictionary
  \<open>{"faults": ..., "steps": ...}\<close>.
\<close>

datatype py_error = IndexError | ValueError | ZeroDivisionError

text \<open>One entry of \<open>steps\<close>: the dictionary appended at the end of each iteration.\<close>

record step =
  page :: int
  frames_before :: "int list"
  frames_after :: "int list"
  page_fault :: bool

text \<open>The returned dictionary.\<close>

record result =
  faults :: nat
  steps :: "step list"

text \<open>
  The local variables of \<open>fifo\<close>, \<open>lru\<close> and \<open>optimal\<close>: \<open>frames\<close>,
  \<open>page_faults\<close> and \<open>steps\<close> (here \<open>steps_acc\<close>).
\<close>

record run_state =
  frames :: "int list"
  page_faults :: nat
  steps_acc :: "step list"

text \<open>\<open>second_chance\<close> and \<open>clock\<close> have \<open>ref_bits\<close> and \<open>pointer\<close> in addition.\<close>

record clock_state = run_state +
  ref_bits :: "int list"
  pointer :: int

subsection \<open>Python list primitives\<close>

text \<open>\<open>xs.index(x)\<close>: the first position of \<open>x\<close>; \<open>None\<close> stands for ValueError.\<close>

fun index_of :: "'a list \<Rightarrow> 'a \<Rightarrow> nat option" where
  "index_of [] x = None"
| "index_of (y # ys) x = (if y = x then Some 0 else map_option Suc (index_of ys x))"

text \<open>\<open>xs.pop(0)\<close>, keeping the list that remains.\<close>

definition pop0 :: "'a list \<Rightarrow> py_error + 'a list" where
  "pop0 xs = (case xs of [] \<Rightarrow> Inl IndexError | _ # rest \<Rightarrow> Inr rest)"

text \<open>Subscripts: a negative index counts from the end, anything out of range raises.\<close>

definition py_pos :: "'a list \<Rightarrow> int \<Rightarrow> py_error + nat" where
  "py_pos xs i =
     (if 0 \<le> i \<and> i < int (length xs) then Inr (nat i)
      else if i < 0 \<and> - int (length xs) \<le> i then Inr (nat (int (length xs) + i))
      else Inl IndexError)"

definition py_set :: "'a list \<Rightarrow> int \<Rightarrow> 'a \<Rightarrow> py_error + 'a list" where
  "py_set xs i v = (case py_pos xs i of Inl e \<Rightarrow> Inl e | Inr k \<Rightarrow> Inr (xs[k := v]))"

text \<open>\<open>a % b\<close> on integers: the sign of the divisor, as \<open>mod\<close> on \<open>int\<close>.\<close>

definition py_mod :: "int \<Rightarrow> int \<Rightarrow> py_error + int" where
  "py_mod a b = (if b = 0 then Inl ZeroDivisionError else Inr (a mod b))"

subsection \<open>The loop skeleton shared by the five policies\<close>

text \<open>\<open>for page in reference_string: ...\<close>, stopping at the first exception.\<close>

fun for_each :: "('a \<Rightarrow> 's \<Rightarrow> py_error + 's) \<Rightarrow> 'a list \<Rightarrow> 's \<Rightarrow> py_error + 's" where
  "for_each body [] st = Inr st"
| "for_each body (x # xs) st =
     (case body x st of Inl e \<Rightarrow> Inl e | Inr st' \<Rightarrow> for_each body xs st')"

text \<open>The \<open>steps.append({...})\<close> that ends every iteration.\<close>

definition append_step ::
  "int \<Rightarrow> int list \<Rightarrow> bool \<Rightarrow> 'a run_state_scheme \<Rightarrow> 'a run_state_scheme" where
  "append_step pg current_state fault st =
     st\<lparr>steps_acc := steps_acc st @
       [\<lparr>page = pg, frames_before = current_state, frames_after = frames st,
         page_fault = fault\<rparr>]\<rparr>"

definition init_state :: run_state where
  "init_state = \<lparr>frames = [], page_faults = 0, steps_acc = []\<rparr>"

definition init_clock_state :: clock_state where
  "init_clock_state =
     \<lparr>frames = [], page_faults = 0, steps_acc = [], ref_bits = [], pointer = 0\<rparr>"

text \<open>\<open>return {"faults": page_faults, "steps": steps}\<close>.\<close>

definition finish :: "py_error + 'a run_state_scheme \<Rightarrow> py_error + result" where
  "finish r = (case r of Inl e \<Rightarrow> Inl e
     | Inr st \<Rightarrow> Inr \<lparr>faults = page_faults st, steps = steps_acc st\<rparr>)"

section \<open>FIFO\<close>

definition fifo_step :: "int \<Rightarrow> int \<Rightarrow> run_state \<Rightarrow> py_error + run_state" where
  "fifo_step frame_size pg st =
     (let current_state = frames st in
      if pg \<notin> set (frames st) then
        (if int (length (frames st)) < frame_size then
           Inr (append_step pg current_state True
                  (st\<lparr>frames := frames st @ [pg], page_faults := page_faults st + 1\<rparr>))
         else
           (case pop0 (frames st) of
              Inl e \<Rightarrow> Inl e
            | Inr rest \<Rightarrow>
                Inr (append_step pg current_state True
                       (st\<lparr>frames := rest @ [pg], page_faults := page_faults st + 1\<rparr>))))
      else Inr (append_step pg current_state False st))"

definition fifo :: "int list \<Rightarrow> int \<Rightarrow> py_error + result" where
  "fifo reference_string frame_size =
     finish (for_each (fifo_step frame_size) reference_string init_state)"

section \<open>LRU\<close>

definition lru_step :: "int \<Rightarrow> int \<Rightarrow> run_state \<Rightarrow> py_error + run_state" where
  "lru_step frame_size pg st =
     (let current_state = frames st in
      if pg \<notin> set (frames st) then
        (if int (length (frames st)) < frame_size then
           Inr (append_step pg current_state True
                  (st\<lparr>frames := frames st @ [pg], page_faults := page_faults st + 1\<rparr>))
         else
           (case pop0 (frames st) of
              Inl e \<Rightarrow> Inl e
            | Inr rest \<Rightarrow>
                Inr (append_step pg current_state True
                       (st\<lparr>frames := rest @ [pg], page_faults := page_faults st + 1\<rparr>))))
      else
        Inr (append_step pg current_state False
               (st\<lparr>frames := remove1 pg (frames st) @ [pg]\<rparr>)))"

definition lru :: "int list \<Rightarrow> int \<Rightarrow> py_error + result" where
  "lru reference_string frame_size =
     finish (for_each (lru_step frame_size) reference_string init_state)"

section \<open>Optimal\<close>

text \<open>
  \<open>dist\<close> is either an index into \<open>future\<close> or \<open>float('inf')\<close>; \<open>max_dist\<close> starts
  at \<open>-1\<close>. \<open>dist_gt\<close> is Python's \<open>>\<close> between such values.
\<close>

datatype dist = Fin int | Infinity

fun dist_gt :: "dist \<Rightarrow> dist \<Rightarrow> bool" where
  "dist_gt (Fin a) (Fin b) = (a > b)"
| "dist_gt Infinity (Fin b) = True"
| "dist_gt (Fin a) Infinity = False"
| "dist_gt Infinity Infinity = False"

text \<open>\<open>try: dist = future.index(frame)  except ValueError: dist = float('inf')\<close>.\<close>

definition future_dist :: "int list \<Rightarrow> int \<Rightarrow> dist" where
  "future_dist future frame =
     (case index_of future frame of Some k \<Rightarrow> Fin (int k) | None \<Rightarrow> Infinity)"

text \<open>
  The inner loop \<open>for frame in frames\<close>, carrying \<open>(replace, max_dist)\<close>;
  \<open>replace = None\<close> is \<open>None\<close> here.
\<close>

fun scan_frames :: "int list \<Rightarrow> int list \<Rightarrow> int option \<times> dist \<Rightarrow> int option \<times> dist" where
  "scan_frames future [] acc = acc"
| "scan_frames future (frame # rest) (replace, max_dist) =
     (let d = future_dist future frame in
      if dist_gt d max_dist then scan_frames future rest (Some frame, d)
      else scan_frames future rest (replace, max_dist))"

text \<open>\<open>frames[frames.index(replace)] = page\<close>; \<open>None\<close> is never in a list of integers.\<close>

definition replace_page :: "int list \<Rightarrow> int option \<Rightarrow> int \<Rightarrow> py_error + int list" where
  "replace_page fs replace pg =
     (case replace of
        None \<Rightarrow> Inl ValueError
      | Some v \<Rightarrow> (case index_of fs v of
                    None \<Rightarrow> Inl ValueError
                  | Some k \<Rightarrow> Inr (fs[k := pg])))"

text \<open>One iteration; \<open>future\<close> is \<open>reference_string[i+1:]\<close>.\<close>

definition optimal_step ::
  "int \<Rightarrow> int list \<Rightarrow> int \<Rightarrow> run_state \<Rightarrow> py_error + run_state" where
  "optimal_step frame_size future pg st =
     (let current_state = frames st in
      if pg \<notin> set (frames st) then
        (if int (length (frames st)) < frame_size then
           Inr (append_step pg current_state True
                  (st\<lparr>frames := frames st @ [pg], page_faults := page_faults st + 1\<rparr>))
         else
           (case replace_page (frames st)
                   (fst (scan_frames future (frames st) (None, Fin (- 1)))) pg of
              Inl e \<Rightarrow> Inl e
            | Inr fs' \<Rightarrow>
                Inr (append_step pg current_state True
                       (st\<lparr>frames := fs', page_faults := page_faults st + 1\<rparr>))))
      else Inr (append_step pg current_state False st))"

text \<open>\<open>for i, page in enumerate(reference_string)\<close>.\<close>

definition optimal :: "int list \<Rightarrow> int \<Rightarrow> py_error + result" where
  "optimal reference_string frame_size =
     finish (for_each
       (\<lambda>(i, pg). optimal_step frame_size (drop (i + 1) reference_string) pg)
       (List.enumerate 0 reference_string) init_state)"

section \<open>Second Chance and Clock\<close>

text \<open>
  \<open>while ref_bits[pointer]: ref_bits[pointer] = 0; pointer = (pointer + 1) % m\<close>,
  where \<open>m\<close> is \<open>frame_size\<close> in \<open>second_chance\<close> and \<open>len(frames)\<close> in \<open>clock\<close>
  (\<open>frames\<close> does not change inside the loop). Every iteration clears a bit that was
  set, which is why the loop ends.
\<close>

function sweep :: "int \<Rightarrow> int list \<Rightarrow> int \<Rightarrow> py_error + (int list \<times> int)" where
  "sweep m bits p =
     (case py_pos bits p of
        Inl e \<Rightarrow> Inl e
      | Inr k \<Rightarrow>
          if bits ! k \<noteq> 0 then
            (case py_mod (p + 1) m of
               Inl e \<Rightarrow> Inl e
             | Inr p' \<Rightarrow> sweep m (bits[k := 0]) p')
          else Inr (bits, p))"
  by pat_completeness auto

lemma py_pos_less: "py_pos xs i = Inr k \<Longrightarrow> k < length xs"
  by (auto simp: py_pos_def split: if_splits)

lemma clear_bit_fewer_set:
  "k < length bits \<Longrightarrow> bits ! k \<noteq> (0::int) \<Longrightarrow>
   length (filter (\<lambda>b. b \<noteq> 0) (bits[k := 0])) < length (filter (\<lambda>b. b \<noteq> 0) bits)"
proof (induction bits arbitrary: k)
  case Nil
  then show ?case by simp
next
  case (Cons b bits)
  then show ?case by (cases k) auto
qed

termination sweep
  by (relation "measure (\<lambda>(m, bits, p). length (filter (\<lambda>b. b \<noteq> 0) bits))")
     (auto dest!: py_pos_less intro: clear_bit_fewer_set)

declare sweep.simps [simp del]

text \<open>
  The \<open>else\<close> branch of a fault: the sweep, then
  \<open>frames[pointer] = page; ref_bits[pointer] = 1; pointer = (pointer + 1) % m\<close>.
\<close>

definition replace_at_pointer :: "int \<Rightarrow> int \<Rightarrow> clock_state \<Rightarrow> py_error + clock_state" where
  "replace_at_pointer m pg st =
     (case sweep m (ref_bits st) (pointer st) of
        Inl e \<Rightarrow> Inl e
      | Inr (bits, p) \<Rightarrow>
          (case py_set (frames st) p pg of
             Inl e \<Rightarrow> Inl e
           | Inr fs' \<Rightarrow>
               (case py_set bits p 1 of
                  Inl e \<Rightarrow> Inl e
                | Inr bits' \<Rightarrow>
                    (case py_mod (p + 1) m of
                       Inl e \<Rightarrow> Inl e
                     | Inr p' \<Rightarrow>
                         Inr (st\<lparr>frames := fs', ref_bits := bits', pointer := p'\<rparr>)))))"

text \<open>The \<open>else\<close> branch of a hit: \<open>ref_bits[frames.index(page)] = 1\<close>.\<close>

definition mark_referenced :: "int \<Rightarrow> clock_state \<Rightarrow> py_error + clock_state" where
  "mark_referenced pg st =
     (case index_of (frames st) pg of
        None \<Rightarrow> Inl ValueError
      | Some k \<Rightarrow>
          (case py_set (ref_bits st) (int k) 1 of
             Inl e \<Rightarrow> Inl e
           | Inr bits' \<Rightarrow> Inr (st\<lparr>ref_bits := bits'\<rparr>)))"

definition second_chance_step :: "int \<Rightarrow> int \<Rightarrow> clock_state \<Rightarrow> py_error + clock_state" where
  "second_chance_step frame_size pg st =
     (let current_state = frames st in
      if pg \<notin> set (frames st) then
        (if int (length (frames st)) < frame_size then
           Inr (append_step pg current_state True
                  (st\<lparr>frames := frames st @ [pg], ref_bits := ref_bits st @ [1],
                      page_faults := page_faults st + 1\<rparr>))
         else
           (case replace_at_pointer frame_size pg st of
              Inl e \<Rightarrow> Inl e
            | Inr st' \<Rightarrow>
                Inr (append_step pg current_state True
                       (st'\<lparr>page_faults := page_faults st' + 1\<rparr>))))
      else
        (case mark_referenced pg st of
           Inl e \<Rightarrow> Inl e
         | Inr st' \<Rightarrow> Inr (append_step pg current_state False st')))"

definition second_chance :: "int list \<Rightarrow> int \<Rightarrow> py_error + result" where
  "second_chance reference_string frame_size =
     finish (for_each (second_chance_step frame_size) reference_string init_clock_state)"

text \<open>\<open>clock\<close> is the same text with \<open>len(frames)\<close> as the modulus.\<close>

definition clock_step :: "int \<Rightarrow> int \<Rightarrow> clock_state \<Rightarrow> py_error + clock_state" where
  "clock_step frame_size pg st =
     (let current_state = frames st in
      if pg \<notin> set (frames st) then
        (if int (length (frames st)) < frame_size then
           Inr (append_step pg current_state True
                  (st\<lparr>frames := frames st @ [pg], ref_bits := ref_bits st @ [1],
                      page_faults := page_faults st + 1\<rparr>))
         else
           (case replace_at_pointer (int (length (frames st))) pg st of
              Inl e \<Rightarrow> Inl e
            | Inr st' \<Rightarrow>
                Inr (append_step pg current_state True
                       (st'\<lparr>page_faults := page_faults st' + 1\<rparr>))))
      else
        (case mark_referenced pg st of
           Inl e \<Rightarrow> Inl e
         | Inr st' \<Rightarrow> Inr (append_step pg current_state False st')))"

definition clock :: "int list \<Rightarrow> int \<Rightarrow> py_error + result" where
  "clock reference_string frame_size =
     finish (for_each (clock_step frame_size) reference_string init_clock_state)"

section \<open>The registry\<close>

definition ALGORITHMS :: "string \<rightharpoonup> (int list \<Rightarrow> int \<Rightarrow> py_error + result)" where
  "ALGORITHMS =
     [''FIFO'' \<mapsto> fifo, ''LRU'' \<mapsto> lru, ''Optimal'' \<mapsto> optimal,
      ''Second Chance'' \<mapsto> second_chance, ''Clock'' \<mapsto> clock]"

section \<open>Notions used to state and prove the properties\<close>

subsection \<open>States and step records\<close>

text \<open>
  \<open>stepped pg s s'\<close>: the iteration for page \<open>pg\<close> appended one step record, with
  the frames before and after and the fault flag, and counted the fault.
  \<open>frames_ok\<close> and \<open>clock_ok\<close> are the loop invariants: no page twice, at most
  \<open>frame_size\<close> frames, one reference bit (0 or 1) per frame, the pointer within
  \<open>0..<frame_size\<close>.
\<close>

definition stepped :: "int \<Rightarrow> 'a run_state_scheme \<Rightarrow> 'a run_state_scheme \<Rightarrow> bool" where
  "stepped pg s s' \<longleftrightarrow>
     steps_acc s' = steps_acc s @
       [\<lparr>page = pg, frames_before = frames s, frames_after = frames s',
         page_fault = (pg \<notin> set (frames s))\<rparr>] \<and>
     page_faults s' = page_faults s + (if pg \<in> set (frames s) then 0 else 1)"

definition frames_ok :: "int \<Rightarrow> 'a run_state_scheme \<Rightarrow> bool" where
  "frames_ok c s \<longleftrightarrow> distinct (frames s) \<and> int (length (frames s)) \<le> c"

definition clock_ok :: "int \<Rightarrow> clock_state \<Rightarrow> bool" where
  "clock_ok c s \<longleftrightarrow>
     frames_ok c s \<and> length (ref_bits s) = length (frames s) \<and>
     0 \<le> pointer s \<and> pointer s < c \<and> set (ref_bits s) \<subseteq> {0, 1}"

text \<open>
  \<open>linked fs trace\<close>: the trace starts from the frames \<open>fs\<close>, every record starts
  from the frames the previous one ended with, and its flag says whether its page was
  absent. \<open>demand_step c r\<close>: the record \<open>r\<close> is a step of a demand paging policy with
  \<open>c\<close> frames (a hit keeps the resident set, a fault with a free frame appends the
  page, a fault with full frames replaces one resident page). \<open>replaced_in_place r\<close>:
  \<open>frames_after\<close> is \<open>frames_before\<close> with one slot overwritten by the page.
\<close>

fun linked :: "int list \<Rightarrow> step list \<Rightarrow> bool" where
  "linked fs [] = True"
| "linked fs (r # rs) =
     (frames_before r = fs \<and> page_fault r = (page r \<notin> set fs) \<and> linked (frames_after r) rs)"

definition demand_step :: "int \<Rightarrow> step \<Rightarrow> bool" where
  "demand_step c r \<longleftrightarrow>
     page_fault r = (page r \<notin> set (frames_before r)) \<and>
     distinct (frames_before r) \<and> int (length (frames_before r)) \<le> c \<and>
     distinct (frames_after r) \<and> int (length (frames_after r)) \<le> c \<and>
     (if page r \<in> set (frames_before r) then set (frames_after r) = set (frames_before r)
      else if int (length (frames_before r)) < c
        then frames_after r = frames_before r @ [page r]
        else \<exists>v\<in>set (frames_before r).
               set (frames_after r) = insert (page r) (set (frames_before r) - {v}))"

definition replaced_in_place :: "step \<Rightarrow> bool" where
  "replaced_in_place r \<longleftrightarrow>
     (\<exists>k<length (frames_before r).
        frames_after r = (frames_before r)[k := page r] \<and> frames_before r ! k \<noteq> page r)"

text \<open>
  \<open>overwrites_one_slot c seq res\<close>: the result \<open>res\<close> has one step record per
  position of \<open>seq\<close>, for the page at that position, each starting from the frames the
  previous one ended with; and at every position where the record is a fault with \<open>c\<close>
  frames occupied, \<open>frames_after\<close> has the length of \<open>frames_before\<close>, holds the new page
  in a slot where \<open>frames_before\<close> held another page, and agrees with \<open>frames_before\<close> in
  every other slot.
\<close>

definition overwrites_one_slot :: "int \<Rightarrow> int list \<Rightarrow> result \<Rightarrow> bool" where
  "overwrites_one_slot c seq res \<longleftrightarrow>
     length (steps res) = length seq \<and>
     linked [] (steps res) \<and>
     (\<forall>i<length seq.
        page (steps res ! i) = seq ! i \<and>
        (page_fault (steps res ! i) \<and> int (length (frames_before (steps res ! i))) = c \<longrightarrow>
          (\<exists>k<length (frames_before (steps res ! i)).
             length (frames_after (steps res ! i)) = length (frames_before (steps res ! i)) \<and>
             frames_after (steps res ! i) ! k = seq ! i \<and>
             frames_before (steps res ! i) ! k \<noteq> seq ! i \<and>
             (\<forall>j<length (frames_before (steps res ! i)).
                j \<noteq> k \<longrightarrow>
                frames_after (steps res ! i) ! j = frames_before (steps res ! i) ! j))))"

subsection \<open>Next use\<close>

text \<open>
  \<open>nxt p future\<close> is the distance to the next use of page \<open>p\<close> in \<open>future\<close>,
  infinite when \<open>p\<close> does not occur. \<open>furthest_first fs future k\<close>: slot \<open>k\<close> of
  \<open>fs\<close> holds a page whose next use is furthest, and every earlier slot holds a page
  with a strictly nearer next use. \<open>evicts_furthest\<close> says that a record of a fault
  with full frames overwrites such a slot.
\<close>

fun nxt :: "int \<Rightarrow> int list \<Rightarrow> enat" where
  "nxt p [] = \<infinity>"
| "nxt p (x # xs) = (if x = p then 0 else eSuc (nxt p xs))"

definition furthest_first :: "int list \<Rightarrow> int list \<Rightarrow> nat \<Rightarrow> bool" where
  "furthest_first fs future k \<longleftrightarrow>
     k < length fs \<and>
     (\<forall>j \<in> {..<length fs}. nxt (fs ! j) future \<le> nxt (fs ! k) future) \<and>
     (\<forall>j \<in> {..<k}. nxt (fs ! j) future < nxt (fs ! k) future)"

definition evicts_furthest :: "int \<Rightarrow> int list \<Rightarrow> step \<Rightarrow> bool" where
  "evicts_furthest c future r \<longleftrightarrow>
     (page_fault r \<and> int (length (frames_before r)) = c \<longrightarrow>
        (\<exists>k. furthest_first (frames_before r) future k \<and>
             frames_after r = (frames_before r)[k := page r]))"

text \<open>
  \<open>rank\<close> orders the values that \<open>dist\<close> and \<open>max_dist\<close> take (from \<open>-1\<close> up, then
  \<open>inf\<close>) the way \<open>dist_gt\<close> does.
\<close>

fun rank :: "dist \<Rightarrow> enat" where
  "rank (Fin a) = enat (nat (a + 1))"
| "rank Infinity = \<infinity>"

fun valid_dist :: "dist \<Rightarrow> bool" where
  "valid_dist (Fin a) = (- 1 \<le> a)"
| "valid_dist Infinity = True"

text \<open>
  The loop of \<open>optimal\<close> written over the remaining references: \<open>future\<close> is the
  tail of the list.
\<close>

fun opt_tail :: "int \<Rightarrow> int list \<Rightarrow> run_state \<Rightarrow> py_error + run_state" where
  "opt_tail c [] s = Inr s"
| "opt_tail c (pg # rest) s =
     (case optimal_step c rest pg s of Inl e \<Rightarrow> Inl e | Inr s' \<Rightarrow> opt_tail c rest s')"

subsection \<open>The sweep in closed form\<close>

text \<open>
  \<open>passed_over c bits p\<close> counts the slots, from \<open>p\<close> on in circular order, whose bit
  is set before the first slot whose bit is clear (all \<open>c\<close> of them when every bit is
  set); \<open>cleared c bits p k\<close> is \<open>bits\<close> with the \<open>k\<close> slots from \<open>p\<close> on set to 0;
  \<open>second_chance_victim\<close> is the slot where the sweep stops.
\<close>

definition passed_over :: "nat \<Rightarrow> int list \<Rightarrow> nat \<Rightarrow> nat" where
  "passed_over c bits p = length (takeWhile (\<lambda>i. bits ! ((p + i) mod c) \<noteq> 0) [0..<c])"

definition cleared :: "nat \<Rightarrow> int list \<Rightarrow> nat \<Rightarrow> nat \<Rightarrow> int list" where
  "cleared c bits p k =
     map (\<lambda>j. if j \<in> (\<lambda>i. (p + i) mod c) ` {..<k} then 0 else bits ! j) [0..<c]"

definition second_chance_victim :: "clock_state \<Rightarrow> nat" where
  "second_chance_victim s =
     (nat (pointer s) + passed_over (length (frames s)) (ref_bits s) (nat (pointer s)))
       mod length (frames s)"

subsection \<open>Demand paging schedules\<close>

text \<open>
  \<open>sched C S rs n\<close>: starting with the resident set \<open>S\<close>, some demand paging policy
  with \<open>C\<close> frames serves the references \<open>rs\<close> with \<open>n\<close> faults. Such a policy loads
  a page only when it is referenced and absent, and evicts only when the frames are full.
\<close>

inductive sched :: "nat \<Rightarrow> int set \<Rightarrow> int list \<Rightarrow> nat \<Rightarrow> bool" for C :: nat where
  sched_Nil: "sched C S [] 0"
| sched_Hit: "r \<in> S \<Longrightarrow> sched C S rs n \<Longrightarrow> sched C S (r # rs) n"
| sched_Load: "r \<notin> S \<Longrightarrow> card S < C \<Longrightarrow> sched C (insert r S) rs n \<Longrightarrow>
     sched C S (r # rs) (Suc n)"
| sched_Evict: "r \<notin> S \<Longrightarrow> \<not> card S < C \<Longrightarrow> v \<in> S \<Longrightarrow>
     sched C (insert r (S - {v})) rs n \<Longrightarrow> sched C S (r # rs) (Suc n)"

inductive_cases sched_NilE: "sched C S [] n"
inductive_cases sched_ConsE: "sched C S (r # rs) n"

section \<open>One iteration of FIFO, LRU and Optimal\<close>

lemma fifo_step_spec:
  assumes "1 \<le> c" "frames_ok c s"
  shows "\<exists>s'. fifo_step c pg s = Inr s' \<and> stepped pg s s' \<and> frames_ok c s' \<and>
     frames s' = (if pg \<in> set (frames s) then frames s
                  else if int (length (frames s)) < c then frames s @ [pg]
                  else tl (frames s) @ [pg])"
  using assms
  by (cases "frames s")
     (auto simp: fifo_step_def frames_ok_def stepped_def append_step_def pop0_def Let_def)

lemma lru_step_spec:
  assumes "1 \<le> c" "frames_ok c s"
  shows "\<exists>s'. lru_step c pg s = Inr s' \<and> stepped pg s s' \<and> frames_ok c s' \<and>
     frames s' = (if pg \<in> set (frames s) then remove1 pg (frames s) @ [pg]
                  else if int (length (frames s)) < c then frames s @ [pg]
                  else tl (frames s) @ [pg])"
proof (cases "pg \<in> set (frames s)")
  case True
  then have "length (frames s) > 0" by (auto dest: length_pos_if_in_set)
  with True assms show ?thesis
    by (auto simp: lru_step_def frames_ok_def stepped_def append_step_def Let_def length_remove1)
next
  case False
  with assms show ?thesis
    by (cases "frames s")
       (auto simp: lru_step_def frames_ok_def stepped_def append_step_def pop0_def Let_def)
qed

lemma dist_gt_rank: "valid_dist a \<Longrightarrow> valid_dist b \<Longrightarrow> dist_gt a b \<longleftrightarrow> rank b < rank a"
  by (cases a; cases b) auto

lemma index_of_nxt:
  "(case index_of future p of Some k \<Rightarrow> nxt p future = enat k | None \<Rightarrow> nxt p future = \<infinity>)"
proof (induction future)
  case Nil
  then show ?case by simp
next
  case (Cons x xs)
  then show ?case
    by (auto split: option.splits simp: eSuc_enat zero_enat_def)
qed

lemma rank_future_dist: "rank (future_dist future p) = eSuc (nxt p future)"
  using index_of_nxt [where future = future and p = p]
  by (auto simp: future_dist_def eSuc_enat split: option.splits) 

lemma valid_future_dist: "valid_dist (future_dist future p)"
  by (auto simp: future_dist_def split: option.splits)

lemma index_of_nth: "distinct xs \<Longrightarrow> k < length xs \<Longrightarrow> index_of xs (xs ! k) = Some k"
proof (induction xs arbitrary: k)
  case Nil
  then show ?case by simp
next
  case (Cons x xs)
  then show ?case by (cases k) auto
qed

lemma index_of_Some: "index_of xs x = Some k \<Longrightarrow> k < length xs \<and> xs ! k = x"
proof (induction xs arbitrary: k)
  case Nil
  then show ?case by simp
next
  case (Cons y ys)
  then show ?case by (cases k) (auto split: if_splits)
qed

lemma index_of_None: "index_of xs x = None \<longleftrightarrow> x \<notin> set xs"
  by (induction xs) auto

lemma scan_frames_spec:
  assumes "scan_frames future fs (r0, m0) = (r, m)" "valid_dist m0"
  shows "((\<forall>f\<in>set fs. rank (future_dist future f) \<le> rank m0) \<and> (r, m) = (r0, m0)) \<or>
         (\<exists>k<length fs. r = Some (fs ! k) \<and> m = future_dist future (fs ! k) \<and>
            rank m0 < rank m \<and>
            (\<forall>j<length fs. rank (future_dist future (fs ! j)) \<le> rank m) \<and>
            (\<forall>j<k. rank (future_dist future (fs ! j)) < rank m))"
  using assms
proof (induction fs arbitrary: r0 m0)
  case Nil
  then show ?case by simp
next
  case (Cons f fs)
  let ?d = "future_dist future f"
  show ?case
  proof (cases "dist_gt ?d m0")
    case True
    then have gt: "rank m0 < rank ?d"
      using Cons.prems(2) by (simp add: dist_gt_rank valid_future_dist)
    from True Cons.prems have run: "scan_frames future fs (Some f, ?d) = (r, m)"
      by simp
    from Cons.IH [OF run valid_future_dist]
    show ?thesis
    proof
      assume a: "(\<forall>f\<in>set fs. rank (future_dist future f) \<le> rank ?d) \<and> (r, m) = (Some f, ?d)"
      then have "\<forall>j<length (f # fs). rank (future_dist future ((f # fs) ! j)) \<le> rank m"
        by (auto simp: nth_Cons split: nat.splits)
      with a gt have "0 < length (f # fs) \<and> r = Some ((f # fs) ! 0) \<and>
          m = future_dist future ((f # fs) ! 0) \<and> rank m0 < rank m \<and>
          (\<forall>j<length (f # fs). rank (future_dist future ((f # fs) ! j)) \<le> rank m) \<and>
          (\<forall>j<0. rank (future_dist future ((f # fs) ! j)) < rank m)"
        by simp
      then show ?thesis by blast
    next
      assume "\<exists>k<length fs. r = Some (fs ! k) \<and> m = future_dist future (fs ! k) \<and>
            rank ?d < rank m \<and>
            (\<forall>j<length fs. rank (future_dist future (fs ! j)) \<le> rank m) \<and>
            (\<forall>j<k. rank (future_dist future (fs ! j)) < rank m)"
      then obtain k where k: "k < length fs" "r = Some (fs ! k)" "m = future_dist future (fs ! k)"
        "rank ?d < rank m" "\<forall>j<length fs. rank (future_dist future (fs ! j)) \<le> rank m"
        "\<forall>j<k. rank (future_dist future (fs ! j)) < rank m"
        by blast
      have "Suc k < length (f # fs) \<and> r = Some ((f # fs) ! Suc k) \<and>
          m = future_dist future ((f # fs) ! Suc k) \<and> rank m0 < rank m \<and>
          (\<forall>j<length (f # fs). rank (future_dist future ((f # fs) ! j)) \<le> rank m) \<and>
          (\<forall>j<Suc k. rank (future_dist future ((f # fs) ! j)) < rank m)"
        using k gt by (auto simp: nth_Cons less_Suc_eq_0_disj split: nat.splits)
      then show ?thesis by blast
    qed
  next
    case False
    then have le: "rank ?d \<le> rank m0"
      using Cons.prems(2) by (simp add: dist_gt_rank valid_future_dist)
    from False Cons.prems have run: "scan_frames future fs (r0, m0) = (r, m)"
      by simp
    from Cons.IH [OF run Cons.prems(2)]
    show ?thesis
    proof
      assume "(\<forall>f\<in>set fs. rank (future_dist future f) \<le> rank m0) \<and> (r, m) = (r0, m0)"
      with le show ?thesis by simp
    next
      assume "\<exists>k<length fs. r = Some (fs ! k) \<and> m = future_dist future (fs ! k) \<and>
            rank m0 < rank m \<and>
            (\<forall>j<length fs. rank (future_dist future (fs ! j)) \<le> rank m) \<and>
            (\<forall>j<k. rank (future_dist future (fs ! j)) < rank m)"
      then obtain k where k: "k < length fs" "r = Some (fs ! k)" "m = future_dist future (fs ! k)"
        "rank m0 < rank m" "\<forall>j<length fs. rank (future_dist future (fs ! j)) \<le> rank m"
        "\<forall>j<k. rank (future_dist future (fs ! j)) < rank m"
        by blast
      have "Suc k < length (f # fs) \<and> r = Some ((f # fs) ! Suc k) \<and>
          m = future_dist future ((f # fs) ! Suc k) \<and> rank m0 < rank m \<and>
          (\<forall>j<length (f # fs). rank (future_dist future ((f # fs) ! j)) \<le> rank m) \<and>
          (\<forall>j<Suc k. rank (future_dist future ((f # fs) ! j)) < rank m)"
        using k le by (auto simp: nth_Cons less_Suc_eq_0_disj split: nat.splits)
      then show ?thesis by blast
    qed
  qed
qed

lemma scan_frames_furthest:
  assumes "fs \<noteq> []"
  shows "\<exists>k. fst (scan_frames future fs (None, Fin (- 1))) = Some (fs ! k) \<and>
             furthest_first fs future k"
proof -
  obtain r m where rm: "scan_frames future fs (None, Fin (- 1)) = (r, m)"
    by (cases "scan_frames future fs (None, Fin (- 1))")
  have v: "valid_dist (Fin (- 1))" by simp
  from assms obtain f where f: "f \<in> set fs" by (cases fs) auto
  have "\<not> rank (future_dist future f) \<le> rank (Fin (- 1))"
    by (simp add: rank_future_dist zero_enat_def [symmetric])
  with f scan_frames_spec [OF rm v]
  obtain k where "k < length fs" "r = Some (fs ! k)" "m = future_dist future (fs ! k)"
        "\<forall>j<length fs. rank (future_dist future (fs ! j)) \<le> rank m"
        "\<forall>j<k. rank (future_dist future (fs ! j)) < rank m"
    by blast
  then have "fst (scan_frames future fs (None, Fin (- 1))) = Some (fs ! k) \<and>
             furthest_first fs future k"
    using rm by (simp add: furthest_first_def rank_future_dist)
  then show ?thesis ..
qed

lemma optimal_step_spec:
  assumes "1 \<le> c" "frames_ok c s"
  shows "\<exists>s'. optimal_step c future pg s = Inr s' \<and> stepped pg s s' \<and> frames_ok c s' \<and>
     (pg \<in> set (frames s) \<longrightarrow> frames s' = frames s) \<and>
     (pg \<notin> set (frames s) \<and> int (length (frames s)) < c \<longrightarrow> frames s' = frames s @ [pg]) \<and>
     (pg \<notin> set (frames s) \<and> \<not> int (length (frames s)) < c \<longrightarrow>
        (\<exists>k. furthest_first (frames s) future k \<and> frames s' = (frames s)[k := pg]))"
proof (cases "pg \<notin> set (frames s) \<and> \<not> int (length (frames s)) < c")
  case False
  with assms show ?thesis
    by (auto simp: optimal_step_def frames_ok_def stepped_def append_step_def Let_def)
next
  case True
  with assms have ne: "frames s \<noteq> []" by auto
  from scan_frames_furthest [OF ne, of future]
  obtain k where k: "fst (scan_frames future (frames s) (None, Fin (- 1))) = Some (frames s ! k)"
    "furthest_first (frames s) future k" by blast
  then have kl: "k < length (frames s)" by (simp add: furthest_first_def)
  from assms have d: "distinct (frames s)" by (simp add: frames_ok_def)
  have rp: "replace_page (frames s) (Some (frames s ! k)) pg = Inr ((frames s)[k := pg])"
    by (simp add: replace_page_def index_of_nth [OF d kl])
  have d': "distinct ((frames s)[k := pg])"
    using d True by (simp add: distinct_list_update)
  show ?thesis
    using True k rp d' assms
    by (auto simp: optimal_step_def frames_ok_def stepped_def append_step_def Let_def)
qed

section \<open>The sweep of the reference bits\<close>

lemma mod_offset_inj_le:
  fixes P :: nat
  assumes "a \<le> b" "b < n" "(P + a) mod n = (P + b) mod n"
  shows "a = b"
proof -
  have "n dvd (P + b) - (P + a)"
    using assms mod_eq_dvd_iff_nat [of "P + a" "P + b" n] by simp
  then have "n dvd b - a" by simp
  with assms(2) show ?thesis
    using nat_dvd_not_less [of "b - a" n] assms(1) by (cases "b - a = 0") auto
qed

lemma mod_offset_inj:
  fixes P :: nat
  assumes "i < n" "t < n" "(P + i) mod n = (P + t) mod n"
  shows "i = t"
proof (cases "i \<le> t")
  case True
  with assms show ?thesis by (auto dest: mod_offset_inj_le)
next
  case False
  then have "t \<le> i" by simp
  with assms mod_offset_inj_le [of t i n P] show ?thesis by simp
qed

lemma sweep_unfold:
  assumes "length bits = n" "P < n"
  shows "sweep (int n) bits (int P) =
     (if bits ! P \<noteq> 0 then sweep (int n) (bits[P := 0]) (int (Suc P mod n))
      else Inr (bits, int P))"
  using assms
  by (subst sweep.simps) (auto simp: py_pos_def py_mod_def zmod_int add.commute)

lemma length_cleared [simp]: "length (cleared c bits p k) = c"
  by (simp add: cleared_def)

lemma cleared_0: "length bits = n \<Longrightarrow> cleared n bits P 0 = bits"
  by (auto simp: cleared_def intro: nth_equalityI)

lemma cleared_nth:
  "j < c \<Longrightarrow> cleared c bits p k ! j =
     (if j \<in> (\<lambda>i. (p + i) mod c) ` {..<k} then 0 else bits ! j)"
  by (simp add: cleared_def)

lemma cleared_Suc:
  assumes "length bits = n" "P < n"
  shows "(cleared n bits P i)[(P + i) mod n := 0] = cleared n bits P (Suc i)"
proof (rule nth_equalityI)
  show "length ((cleared n bits P i)[(P + i) mod n := 0]) = length (cleared n bits P (Suc i))"
    by simp
next
  fix j
  assume "j < length ((cleared n bits P i)[(P + i) mod n := 0])"
  then have j: "j < n" by simp
  have img: "(\<lambda>t. (P + t) mod n) ` {..<Suc i} =
      insert ((P + i) mod n) ((\<lambda>t. (P + t) mod n) ` {..<i})"
    by (simp add: lessThan_Suc)
  show "(cleared n bits P i)[(P + i) mod n := 0] ! j = cleared n bits P (Suc i) ! j"
    using j by (simp add: nth_list_update cleared_nth img)
qed

lemma sweep_iter:
  assumes "length bits = n" "P < n"
  shows "i \<le> n \<Longrightarrow> \<forall>j<i. bits ! ((P + j) mod n) \<noteq> 0 \<Longrightarrow>
    sweep (int n) bits (int P) = sweep (int n) (cleared n bits P i) (int ((P + i) mod n))"
proof (induction i)
  case 0
  with assms show ?case by (simp add: cleared_0)
next
  case (Suc i)
  then have IH: "sweep (int n) bits (int P) =
      sweep (int n) (cleared n bits P i) (int ((P + i) mod n))"
    by simp
  let ?q = "(P + i) mod n"
  have q: "?q < n" using assms by simp
  have notin: "?q \<notin> (\<lambda>t. (P + t) mod n) ` {..<i}"
  proof
    assume "?q \<in> (\<lambda>t. (P + t) mod n) ` {..<i}"
    then obtain t where t: "t < i" "(P + i) mod n = (P + t) mod n" by auto
    with Suc.prems(1) have "i = t" by (intro mod_offset_inj [of i n t P]) auto
    with t show False by simp
  qed
  have bit: "cleared n bits P i ! ?q \<noteq> 0"
    using q notin Suc.prems(2) by (simp add: cleared_def)
  have nextp: "Suc ?q mod n = (P + Suc i) mod n"
    by (simp add: mod_Suc_eq)
  show ?case
    unfolding IH
    by (subst sweep_unfold [where n = n]) (simp_all add: q bit cleared_Suc assms nextp)
qed

lemma passed_over_le: "passed_over n bits P \<le> n"
  using length_takeWhile_le [of "\<lambda>i. bits ! ((P + i) mod n) \<noteq> 0" "[0..<n]"]
  by (simp add: passed_over_def)

lemma passed_over_set:
  assumes "j < passed_over n bits P"
  shows "bits ! ((P + j) mod n) \<noteq> 0"
proof -
  let ?Q = "\<lambda>i. bits ! ((P + i) mod n) \<noteq> 0"
  have jn: "j < n" using assms passed_over_le [of n bits P] by simp
  from assms have "j < length (takeWhile ?Q [0..<n])" by (simp add: passed_over_def)
  then have "takeWhile ?Q [0..<n] ! j \<in> set (takeWhile ?Q [0..<n])"
    by (rule nth_mem)
  moreover have "takeWhile ?Q [0..<n] ! j = [0..<n] ! j"
    using assms by (intro takeWhile_nth) (simp add: passed_over_def)
  ultimately have "?Q ([0..<n] ! j)" by (auto dest: set_takeWhileD)
  with jn show ?thesis by simp
qed

lemma passed_over_stop:
  assumes "passed_over n bits P < n"
  shows "bits ! ((P + passed_over n bits P) mod n) = 0"
  using assms nth_length_takeWhile [of "\<lambda>i. bits ! ((P + i) mod n) \<noteq> 0" "[0..<n]"]
  by (simp add: passed_over_def)

lemma sweep_spec:
  assumes "length bits = n" "P < n"
  shows "sweep (int n) bits (int P) =
     Inr (cleared n bits P (passed_over n bits P), int ((P + passed_over n bits P) mod n))"
proof -
  let ?k = "passed_over n bits P"
  let ?v = "(P + ?k) mod n"
  have v: "?v < n" using assms by simp
  have run: "sweep (int n) bits (int P) = sweep (int n) (cleared n bits P ?k) (int ?v)"
    using assms by (intro sweep_iter) (auto simp: passed_over_le passed_over_set)
  have "cleared n bits P ?k ! ?v = 0"
  proof (cases "?k < n")
    case True
    then show ?thesis using v passed_over_stop [of n bits P] by (simp add: cleared_def)
  next
    case False
    then have kn: "?k = n" using passed_over_le [of n bits P] by simp
    have "?v = (P + 0) mod n" using assms kn by simp
    moreover have "0 < ?k" using kn assms by simp
    ultimately have "?v \<in> (\<lambda>i. (P + i) mod n) ` {..<?k}" by blast
    then show ?thesis using v by (simp add: cleared_def)
  qed
  then show ?thesis
    unfolding run by (subst sweep_unfold [where n = n]) (simp_all add: v)
qed

section \<open>Reasoning about the loop\<close>

lemma for_each_append:
  "for_each body (xs @ ys) st =
     (case for_each body xs st of Inl e \<Rightarrow> Inl e | Inr st' \<Rightarrow> for_each body ys st')"
  by (induction xs arbitrary: st) (auto split: sum.splits)

lemma for_each_trace:
  assumes step: "\<And>x s. I s \<Longrightarrow>
     \<exists>s'. body x s = Inr s' \<and> I s' \<and> stepped (g x) s s' \<and> T x (last (steps_acc s'))"
  shows "I st \<Longrightarrow> \<exists>st' new. for_each body xs st = Inr st' \<and> I st' \<and>
     steps_acc st' = steps_acc st @ new \<and> list_all2 T xs new \<and> map page new = map g xs \<and>
     linked (frames st) new \<and>
     page_faults st' = page_faults st + length (filter page_fault new)"
proof (induction xs arbitrary: st)
  case Nil
  then show ?case by simp
next
  case (Cons x xs)
  from step [OF Cons.prems, of x] obtain s1 where
    s1: "body x st = Inr s1" "I s1" "stepped (g x) st s1" "T x (last (steps_acc s1))"
    by blast
  let ?r = "\<lparr>page = g x, frames_before = frames st, frames_after = frames s1,
              page_fault = (g x \<notin> set (frames st))\<rparr>"
  from s1(3) have acc: "steps_acc s1 = steps_acc st @ [?r]"
    and pf: "page_faults s1 = page_faults st + (if g x \<in> set (frames st) then 0 else 1)"
    by (simp_all add: stepped_def)
  from s1(4) acc have Tr: "T x ?r" by simp
  from Cons.IH [OF s1(2)] obtain st' new where
    run: "for_each body xs s1 = Inr st'" "I st'" "steps_acc st' = steps_acc s1 @ new"
      "list_all2 T xs new" "map page new = map g xs" "linked (frames s1) new"
      "page_faults st' = page_faults s1 + length (filter page_fault new)"
    by blast
  have "for_each body (x # xs) st = Inr st' \<and> I st' \<and>
     steps_acc st' = steps_acc st @ (?r # new) \<and> list_all2 T (x # xs) (?r # new) \<and>
     map page (?r # new) = map g (x # xs) \<and> linked (frames st) (?r # new) \<and>
     page_faults st' = page_faults st + length (filter page_fault (?r # new))"
    using s1(1) run acc pf Tr by simp
  then show ?case by blast
qed

lemma for_each_agree:
  assumes "\<And>x s. I s \<Longrightarrow> f x s = g x s"
    and "\<And>x s s'. I s \<Longrightarrow> f x s = Inr s' \<Longrightarrow> I s'"
  shows "I st \<Longrightarrow> for_each f xs st = for_each g xs st"
proof (induction xs arbitrary: st)
  case Nil
  then show ?case by simp
next
  case (Cons x xs)
  from assms(1) [OF Cons.prems] have eq: "g x st = f x st" by simp
  show ?case
  proof (cases "f x st")
    case (Inl e)
    then show ?thesis by (simp add: eq)
  next
    case (Inr s1)
    with assms(2) [OF Cons.prems] have "I s1" by simp
    with Cons.IH Inr show ?thesis by (simp add: eq)
  qed
qed

section \<open>One iteration of Second Chance and Clock\<close>

lemma set_cleared: "length bits = c \<Longrightarrow> set (cleared c bits p k) \<subseteq> insert 0 (set bits)"
  by (auto simp: cleared_def)

lemma py_set_in_range:
  "k < length xs \<Longrightarrow> py_set xs (int k) v = Inr (xs[k := v])"
  by (simp add: py_set_def py_pos_def)

lemma replace_at_pointer_spec:
  assumes "length (frames s) = n" "length (ref_bits s) = n" "pointer s = int P" "P < n"
  shows "replace_at_pointer (int n) pg s =
     Inr (s\<lparr>frames := (frames s)[(P + passed_over n (ref_bits s) P) mod n := pg],
            ref_bits := (cleared n (ref_bits s) P (passed_over n (ref_bits s) P))
                          [(P + passed_over n (ref_bits s) P) mod n := 1],
            pointer := int (Suc ((P + passed_over n (ref_bits s) P) mod n) mod n)\<rparr>)"
proof -
  let ?k = "passed_over n (ref_bits s) P"
  let ?v = "(P + ?k) mod n"
  have v: "?v < n" using assms by simp
  have sw: "sweep (int n) (ref_bits s) (pointer s) = Inr (cleared n (ref_bits s) P ?k, int ?v)"
    using assms by (simp add: sweep_spec)
  have m: "py_mod (int ?v + 1) (int n) = Inr (int (Suc ?v mod n))"
    using assms by (simp add: py_mod_def zmod_int add.commute)
  show ?thesis
    unfolding replace_at_pointer_def sw
    using v assms m by (simp add: py_set_in_range)
qed

lemma second_chance_step_spec:
  assumes "1 \<le> c" "clock_ok c s"
  shows "\<exists>s'. second_chance_step c pg s = Inr s' \<and> stepped pg s s' \<and> clock_ok c s' \<and>
     (pg \<in> set (frames s) \<longrightarrow>
        frames s' = frames s \<and> pointer s' = pointer s \<and>
        (\<exists>k<length (frames s). frames s ! k = pg \<and> ref_bits s' = (ref_bits s)[k := 1])) \<and>
     (pg \<notin> set (frames s) \<and> int (length (frames s)) < c \<longrightarrow>
        frames s' = frames s @ [pg] \<and> ref_bits s' = ref_bits s @ [1] \<and>
        pointer s' = pointer s) \<and>
     (pg \<notin> set (frames s) \<and> \<not> int (length (frames s)) < c \<longrightarrow>
        second_chance_victim s < length (frames s) \<and>
        frames s' = (frames s)[second_chance_victim s := pg] \<and>
        ref_bits s' =
          (cleared (length (frames s)) (ref_bits s) (nat (pointer s))
             (passed_over (length (frames s)) (ref_bits s) (nat (pointer s))))
            [second_chance_victim s := 1] \<and>
        pointer s' = int (Suc (second_chance_victim s) mod length (frames s)))"
proof -
  from assms have ok: "distinct (frames s)" "int (length (frames s)) \<le> c"
    "length (ref_bits s) = length (frames s)" "0 \<le> pointer s" "pointer s < c"
    "set (ref_bits s) \<subseteq> {0, 1}"
    by (simp_all add: clock_ok_def frames_ok_def)
  consider (hit) "pg \<in> set (frames s)"
    | (load) "pg \<notin> set (frames s)" "int (length (frames s)) < c"
    | (evict) "pg \<notin> set (frames s)" "\<not> int (length (frames s)) < c"
    by blast
  then show ?thesis
  proof cases
    case hit
    then obtain k where k: "index_of (frames s) pg = Some k"
      by (cases "index_of (frames s) pg") (simp_all add: index_of_None)
    then have kl: "k < length (frames s)" "frames s ! k = pg"
      by (simp_all add: index_of_Some)
    have mr: "mark_referenced pg s = Inr (s\<lparr>ref_bits := (ref_bits s)[k := 1]\<rparr>)"
      using k kl ok by (simp add: mark_referenced_def py_set_in_range)
    have "set ((ref_bits s)[k := 1]) \<subseteq> {0, 1}"
      using ok(6) set_update_subset_insert [of "ref_bits s" k 1] by auto
    then show ?thesis
      using hit mr kl ok
      by (auto simp: second_chance_step_def stepped_def append_step_def clock_ok_def
          frames_ok_def Let_def)
  next
    case load
    then show ?thesis
      using ok
      by (auto simp: second_chance_step_def stepped_def append_step_def clock_ok_def
          frames_ok_def Let_def)
  next
    case evict
    let ?n = "length (frames s)"
    let ?P = "nat (pointer s)"
    let ?k = "passed_over ?n (ref_bits s) ?P"
    let ?v = "(?P + ?k) mod ?n"
    from evict ok have c: "c = int ?n" by simp
    with ok assms have P: "pointer s = int ?P" "?P < ?n" by simp_all
    from P(2) have n0: "0 < ?n" by (cases "frames s") simp_all
    then have v: "?v < ?n" by (rule mod_less_divisor)
    have rp: "replace_at_pointer c pg s =
       Inr (s\<lparr>frames := (frames s)[?v := pg],
              ref_bits := (cleared ?n (ref_bits s) ?P ?k)[?v := 1],
              pointer := int (Suc ?v mod ?n)\<rparr>)"
      unfolding c using ok(3) P by (intro replace_at_pointer_spec) simp_all
    have d: "distinct ((frames s)[?v := pg])"
      using ok(1) evict(1) by (simp add: distinct_list_update)
    have "set ((cleared ?n (ref_bits s) ?P ?k)[?v := 1]) \<subseteq>
        insert 1 (set (cleared ?n (ref_bits s) ?P ?k))"
      by (rule set_update_subset_insert)
    also have "\<dots> \<subseteq> {0, 1}"
      using set_cleared [of "ref_bits s" ?n ?P ?k] ok(3, 6) by auto
    finally have bits: "set ((cleared ?n (ref_bits s) ?P ?k)[?v := 1]) \<subseteq> {0, 1}" .
    have "Suc ?v mod ?n < ?n" using n0 by (rule mod_less_divisor)
    then have ptr: "int (Suc ?v mod ?n) < c" unfolding c by simp
    show ?thesis
      using evict rp d bits ptr v ok
      by (auto simp: second_chance_step_def stepped_def append_step_def clock_ok_def
          frames_ok_def Let_def second_chance_victim_def)
  qed
qed

lemma clock_step_eq:
  assumes "frames_ok c s"
  shows "clock_step c pg s = second_chance_step c pg s"
proof (cases "int (length (frames s)) < c")
  case True
  then show ?thesis by (simp add: clock_step_def second_chance_step_def Let_def)
next
  case False
  with assms have "int (length (frames s)) = c" by (simp add: frames_ok_def)
  then show ?thesis by (simp add: clock_step_def second_chance_step_def Let_def)
qed

section \<open>Exchanging a page in a schedule\<close>

lemma nxt_Cons_mono:
  "r \<noteq> a \<Longrightarrow> r \<noteq> b \<Longrightarrow> nxt b (r # rs) \<le> nxt a (r # rs) \<Longrightarrow> nxt b rs \<le> nxt a rs"
  by simp

lemma exchange:
  assumes "finite X" "a \<notin> X" "b \<notin> X" "Suc (card X) = C" "sched C (insert a X) rs n"
  shows "(\<exists>m\<le>Suc n. sched C (insert b X) rs m) \<and>
         (nxt b rs \<le> nxt a rs \<longrightarrow> (\<exists>m\<le>n. sched C (insert b X) rs m))"
  using assms
proof (induction rs arbitrary: X a b n)
  case Nil
  then have "n = 0" by (auto elim: sched_NilE)
  then show ?case by (auto intro: sched_Nil)
next
  case (Cons r rs)
  note fin = \<open>finite X\<close> and aX = \<open>a \<notin> X\<close> and bX = \<open>b \<notin> X\<close> and cX = \<open>Suc (card X) = C\<close>
  have full_a: "card (insert a X) = C" and full_b: "card (insert b X) = C"
    using fin aX bX cX by simp_all
  show ?case
  proof (cases "a = b")
    case True
    with Cons.prems(5) have "n \<le> Suc n \<and> sched C (insert b X) (r # rs) n" by simp
    moreover from True Cons.prems(5) have "n \<le> n \<and> sched C (insert b X) (r # rs) n" by simp
    ultimately show ?thesis by blast
  next
    case ab: False
    from Cons.prems(5) show ?thesis
    proof (cases rule: sched_ConsE [consumes 1, case_names Hit Load Evict])
      case Hit
      show ?thesis
      proof (cases "r = a")
        case True
        have "insert a (insert b X - {b}) = insert a X" using bX by auto
        with Hit(2) have "sched C (insert a (insert b X - {b})) rs n" by simp
        then have "sched C (insert b X) (a # rs) (Suc n)"
          using ab aX full_b by (intro sched_Evict [where v = b]) auto
        moreover have "\<not> nxt b (r # rs) \<le> nxt a (r # rs)"
          using True ab by (simp add: zero_enat_def [symmetric])
        ultimately show ?thesis using True by auto
      next
        case False
        with Hit(1) have rX: "r \<in> X" by simp
        then have ra: "r \<noteq> a" and rb: "r \<noteq> b" using aX bX by auto
        from Cons.IH [OF fin aX bX cX Hit(2)]
        have IH: "(\<exists>m\<le>Suc n. sched C (insert b X) rs m)"
          "nxt b rs \<le> nxt a rs \<longrightarrow> (\<exists>m\<le>n. sched C (insert b X) rs m)"
          by auto
        have step: "\<And>m. sched C (insert b X) rs m \<Longrightarrow> sched C (insert b X) (r # rs) m"
          using rX by (intro sched_Hit) auto
        from IH(1) step have one: "\<exists>m\<le>Suc n. sched C (insert b X) (r # rs) m" by blast
        have two: "nxt b (r # rs) \<le> nxt a (r # rs) \<longrightarrow>
            (\<exists>m\<le>n. sched C (insert b X) (r # rs) m)"
        proof
          assume "nxt b (r # rs) \<le> nxt a (r # rs)"
          with ra rb have "nxt b rs \<le> nxt a rs" by simp
          with IH(2) step show "\<exists>m\<le>n. sched C (insert b X) (r # rs) m" by blast
        qed
        from one two show ?thesis ..
      qed
    next
      case (Load n')
      with full_a show ?thesis by simp
    next
      case (Evict v n')
      note n = \<open>n = Suc n'\<close> and rnot = \<open>r \<notin> insert a X\<close> and vin = \<open>v \<in> insert a X\<close>
        and rest = \<open>sched C (insert r (insert a X - {v})) rs n'\<close>
      from rnot have ra: "r \<noteq> a" and rX: "r \<notin> X" by auto
      show ?thesis
      proof (cases "r = b")
        case rb: True
        have "\<exists>m\<le>n. sched C (insert b X) rs m"
        proof (cases "v = a")
          case True
          then have "insert r (insert a X - {v}) = insert b X" using aX rb by auto
          with rest n show ?thesis by (auto intro!: exI [of _ n'])
        next
          case False
          with vin have vX: "v \<in> X" by simp
          let ?Y = "insert b (X - {v})"
          have Y: "finite ?Y" "a \<notin> ?Y" "v \<notin> ?Y" "Suc (card ?Y) = C"
            using fin aX bX vX ab cX by (auto simp: card_Diff_singleton card_gt_0_iff intro: Suc_pred)
          have "insert r (insert a X - {v}) = insert a ?Y" using rb False aX by auto
          with rest have "sched C (insert a ?Y) rs n'" by simp
          from Cons.IH [OF Y this] obtain m where "m \<le> Suc n'" "sched C (insert v ?Y) rs m"
            by blast
          moreover have "insert v ?Y = insert b X" using vX by auto
          ultimately show ?thesis using n by (auto intro!: exI [of _ m])
        qed
        then obtain m where "m \<le> n" "sched C (insert b X) rs m" by blast
        then have "m \<le> n \<and> sched C (insert b X) (r # rs) m"
          using rb by (auto intro: sched_Hit)
        then show ?thesis by (meson le_SucI)
      next
        case rb: False
        with rX have rnb: "r \<notin> insert b X" by simp
        show ?thesis
        proof (cases "v = a")
          case True
          then have "insert r (insert a X - {v}) = insert r (insert b X - {b})"
            using aX bX by auto
          with rest have "sched C (insert r (insert b X - {b})) rs n'" by simp
          then have "sched C (insert b X) (r # rs) (Suc n')"
            using rnb full_b by (intro sched_Evict [where v = b]) auto
          with n show ?thesis by (auto intro!: exI [of _ "Suc n'"])
        next
          case False
          with vin have vX: "v \<in> X" by simp
          let ?Y = "insert r (X - {v})"
          have Y: "finite ?Y" "a \<notin> ?Y" "b \<notin> ?Y" "Suc (card ?Y) = C"
            using fin aX bX vX ra rb rX cX
            by (auto simp: card_Diff_singleton card_gt_0_iff intro: Suc_pred)
          have "insert r (insert a X - {v}) = insert a ?Y" using False aX by auto
          with rest have "sched C (insert a ?Y) rs n'" by simp
          from Cons.IH [OF Y this]
          have IH: "\<exists>m\<le>Suc n'. sched C (insert b ?Y) rs m"
            "nxt b rs \<le> nxt a rs \<longrightarrow> (\<exists>m\<le>n'. sched C (insert b ?Y) rs m)"
            by auto
          have eq: "insert r (insert b X - {v}) = insert b ?Y" using bX vX by auto
          have step: "\<And>m. sched C (insert b ?Y) rs m \<Longrightarrow> sched C (insert b X) (r # rs) (Suc m)"
            using rnb full_b vX eq by (intro sched_Evict [where v = v]) auto
          from IH(1) step n have one: "\<exists>m\<le>Suc n. sched C (insert b X) (r # rs) m"
            by (metis Suc_le_mono)
          have two: "nxt b (r # rs) \<le> nxt a (r # rs) \<longrightarrow>
              (\<exists>m\<le>n. sched C (insert b X) (r # rs) m)"
          proof
            assume "nxt b (r # rs) \<le> nxt a (r # rs)"
            with ra rb have "nxt b rs \<le> nxt a rs" by simp
            with IH(2) step n show "\<exists>m\<le>n. sched C (insert b X) (r # rs) m"
              by (metis Suc_le_mono)
          qed
          from one two show ?thesis ..
        qed
      qed
    qed
  qed
qed

section \<open>Optimal against any schedule\<close>

lemma optimal_loop_tail:
  "for_each (\<lambda>(i, pg). optimal_step c (drop (i + 1) (pre @ seq)) pg)
     (List.enumerate (length pre) seq) s = opt_tail c seq s"
proof (induction seq arbitrary: pre s)
  case Nil
  then show ?case by simp
next
  case (Cons pg rest)
  from Cons.IH [of "pre @ [pg]"] show ?case
    by (simp split: sum.splits)
qed

lemma furthest_first_ge:
  assumes "furthest_first fs future k" "v \<in> set fs"
  shows "nxt v future \<le> nxt (fs ! k) future"
proof -
  from assms(2) obtain j where "j < length fs" "fs ! j = v"
    by (auto simp: in_set_conv_nth)
  with assms(1) show ?thesis by (auto simp: furthest_first_def)
qed

lemma optimal_beats_sched:
  assumes c: "1 \<le> c"
  shows "sched (nat c) (set (frames s)) seq n \<Longrightarrow> frames_ok c s \<Longrightarrow>
     \<exists>s'. opt_tail c seq s = Inr s' \<and> page_faults s' \<le> page_faults s + n"
proof (induction seq arbitrary: s n)
  case Nil
  then show ?case by simp
next
  case (Cons pg rest)
  let ?S = "set (frames s)"
  let ?C = "nat c"
  from Cons.prems(2) have d: "distinct (frames s)" and len: "int (length (frames s)) \<le> c"
    by (simp_all add: frames_ok_def)
  have card: "card ?S = length (frames s)" using d by (simp add: distinct_card)
  from optimal_step_spec [OF c Cons.prems(2), of rest pg] obtain s1 where
    s1: "optimal_step c rest pg s = Inr s1" "stepped pg s s1" "frames_ok c s1"
      "pg \<in> ?S \<longrightarrow> frames s1 = frames s"
      "pg \<notin> ?S \<and> int (length (frames s)) < c \<longrightarrow> frames s1 = frames s @ [pg]"
      "pg \<notin> ?S \<and> \<not> int (length (frames s)) < c \<longrightarrow>
        (\<exists>k. furthest_first (frames s) rest k \<and> frames s1 = (frames s)[k := pg])"
    by blast
  from s1(2) have pf: "page_faults s1 = page_faults s + (if pg \<in> ?S then 0 else 1)"
    by (simp add: stepped_def)
  have goal: "\<exists>s'. opt_tail c (pg # rest) s = Inr s' \<and> page_faults s' \<le> page_faults s + n"
    if "sched ?C (set (frames s1)) rest m" "page_faults s1 + m \<le> page_faults s + n" for m
  proof -
    from Cons.IH [OF that(1) s1(3)] obtain s' where
      "opt_tail c rest s1 = Inr s'" "page_faults s' \<le> page_faults s1 + m" by blast
    with that(2) s1(1) show ?thesis by simp
  qed
  from Cons.prems(1) show ?case
  proof (cases rule: sched_ConsE [consumes 1, case_names Hit Load Evict])
    case Hit
    with s1(4) pf show ?thesis by (intro goal [of n]) simp_all
  next
    case (Load n')
    then have "int (length (frames s)) < c" using card by simp
    with Load s1(5) pf show ?thesis by (intro goal [of n']) simp_all
  next
    case (Evict v n')
    then have full: "\<not> int (length (frames s)) < c" using card by simp
    with len have lenC: "length (frames s) = ?C" by simp
    from Evict s1(6) full obtain k where
      k: "furthest_first (frames s) rest k" "frames s1 = (frames s)[k := pg]" by blast
    then have kl: "k < length (frames s)" by (simp add: furthest_first_def)
    let ?w = "frames s ! k"
    have wS: "?w \<in> ?S" using kl by simp
    have set1: "set (frames s1) = insert pg (?S - {?w})"
      using k(2) d kl by (simp add: set_update_distinct)
    show ?thesis
    proof (cases "v = ?w")
      case True
      with Evict set1 pf show ?thesis by (intro goal [of n']) simp_all
    next
      case False
      let ?X = "insert pg (?S - {v} - {?w})"
      have X: "finite ?X" "?w \<notin> ?X" "v \<notin> ?X" using Evict(2,4) wS by auto
      have eqw: "insert ?w ?X = insert pg (?S - {v})" using wS False by auto
      have eqv: "insert v ?X = insert pg (?S - {?w})" using Evict(4) False by auto
      have "card (insert pg (?S - {v})) = card ?S"
        using Evict(2,4) by (simp add: card_Diff_singleton card_gt_0_iff)
           (metis List.finite_set Suc_pred card_gt_0_iff empty_iff)
      then have "card (insert ?w ?X) = ?C" using eqw card lenC by simp
      then have cX: "Suc (card ?X) = ?C" using X by simp
      from Evict(5) eqw have "sched ?C (insert ?w ?X) rest n'" by simp
      from exchange [OF X cX this]
      have "nxt v rest \<le> nxt ?w rest \<longrightarrow> (\<exists>m\<le>n'. sched ?C (insert v ?X) rest m)"
        by blast
      moreover have "nxt v rest \<le> nxt ?w rest"
        using k(1) Evict(4) by (rule furthest_first_ge)
      ultimately obtain m where m: "m \<le> n'" "sched ?C (insert v ?X) rest m" by blast
      with eqv set1 have "sched ?C (set (frames s1)) rest m" by simp
      moreover have "page_faults s1 + m \<le> page_faults s + n"
        using pf m(1) Evict(1,2) by simp
      ultimately show ?thesis by (rule goal)
    qed
  qed
qed

section \<open>The traces of the five policies\<close>

lemma stepped_last:
  "stepped pg s s' \<Longrightarrow> last (steps_acc s') =
     \<lparr>page = pg, frames_before = frames s, frames_after = frames s',
      page_fault = (pg \<notin> set (frames s))\<rparr>"
  by (simp add: stepped_def)

lemma linked_demand_sched:
  "linked fs new \<Longrightarrow> \<forall>r\<in>set new. demand_step c r \<Longrightarrow>
   sched (nat c) (set fs) (map page new) (length (filter page_fault new))"
proof (induction new arbitrary: fs)
  case Nil
  then show ?case by (simp add: sched_Nil)
next
  case (Cons r rs)
  then have fb: "frames_before r = fs" and pf: "page_fault r = (page r \<notin> set fs)"
    and lk: "linked (frames_after r) rs" and dm: "demand_step c r"
    and rest: "\<forall>r\<in>set rs. demand_step c r"
    by simp_all
  from Cons.IH [OF lk rest]
  have IH: "sched (nat c) (set (frames_after r)) (map page rs) (length (filter page_fault rs))" .
  from dm fb have d: "distinct fs" by (simp add: demand_step_def)
  then have card: "card (set fs) = length fs" by (rule distinct_card)
  consider (hit) "page r \<in> set fs"
    | (load) "page r \<notin> set fs" "int (length fs) < c"
    | (evict) "page r \<notin> set fs" "\<not> int (length fs) < c"
    by blast
  then show ?case
  proof cases
    case hit
    with dm fb have "set (frames_after r) = set fs" by (simp add: demand_step_def)
    with IH hit pf show ?thesis by (simp add: sched_Hit)
  next
    case load
    with dm fb have "set (frames_after r) = insert (page r) (set fs)"
      by (simp add: demand_step_def)
    with IH have "sched (nat c) (insert (page r) (set fs)) (map page rs)
        (length (filter page_fault rs))" by simp
    then have "sched (nat c) (set fs) (page r # map page rs)
        (Suc (length (filter page_fault rs)))"
      using load card by (intro sched_Load) simp_all
    with load pf show ?thesis by simp
  next
    case evict
    with dm fb obtain v where v: "v \<in> set fs"
      "set (frames_after r) = insert (page r) (set fs - {v})"
      by (auto simp: demand_step_def)
    with IH have "sched (nat c) (insert (page r) (set fs - {v})) (map page rs)
        (length (filter page_fault rs))" by simp
    then have "sched (nat c) (set fs) (page r # map page rs)
        (Suc (length (filter page_fault rs)))"
      using evict card v(1) by (intro sched_Evict [where v = v]) simp_all
    with evict pf show ?thesis by simp
  qed
qed

lemma list_all2_rightD: "list_all2 (\<lambda>x r. Q r) xs new \<Longrightarrow> r \<in> set new \<Longrightarrow> Q r"
  by (auto simp: list_all2_conv_all_nth in_set_conv_nth)

lemma frames_ok_init [simp]: "frames_ok c init_state = (0 \<le> c)"
  by (simp add: frames_ok_def init_state_def)

lemma fifo_step_trace:
  assumes "1 \<le> c" "frames_ok c s"
  shows "\<exists>s'. fifo_step c pg s = Inr s' \<and> frames_ok c s' \<and> stepped pg s s' \<and>
     (demand_step c (last (steps_acc s')) \<and>
      (\<not> page_fault (last (steps_acc s')) \<longrightarrow>
         frames_before (last (steps_acc s')) = frames_after (last (steps_acc s'))))"
proof -
  from fifo_step_spec [OF assms, of pg] obtain s' where
    s': "fifo_step c pg s = Inr s'" "stepped pg s s'" "frames_ok c s'"
      "frames s' = (if pg \<in> set (frames s) then frames s
                  else if int (length (frames s)) < c then frames s @ [pg]
                  else tl (frames s) @ [pg])"
    by blast
  have "demand_step c (last (steps_acc s'))"
  proof (cases "pg \<notin> set (frames s) \<and> \<not> int (length (frames s)) < c")
    case False
    with s' assms(2) show ?thesis
      by (auto simp: stepped_last demand_step_def frames_ok_def)
  next
    case True
    with assms obtain v rest where fs: "frames s = v # rest"
      by (cases "frames s") (auto simp: frames_ok_def)
    with assms(2) have "set (rest @ [pg]) = insert pg (set (frames s) - {v})"
      by (auto simp: frames_ok_def)
    with True s' assms(2) fs show ?thesis
      by (auto simp: stepped_last demand_step_def frames_ok_def)
  qed
  with s' show ?thesis by (auto simp: stepped_last)
qed

lemma fifo_run:
  assumes "1 \<le> c"
  shows "\<exists>res. fifo seq c = Inr res \<and> map page (steps res) = seq \<and> linked [] (steps res) \<and>
     faults res = length (filter page_fault (steps res)) \<and>
     (\<forall>r\<in>set (steps res). demand_step c r \<and>
        (\<not> page_fault r \<longrightarrow> frames_before r = frames_after r))"
proof -
  let ?T = "\<lambda>(x::int) r. demand_step c r \<and> (\<not> page_fault r \<longrightarrow> frames_before r = frames_after r)"
  have I0: "frames_ok c init_state" using assms by simp
  from for_each_trace [where I = "frames_ok c" and body = "fifo_step c" and g = "\<lambda>x. x"
      and T = ?T and xs = seq, OF fifo_step_trace [OF assms] I0]
  obtain st' new where run: "for_each (fifo_step c) seq init_state = Inr st'"
    "steps_acc st' = steps_acc init_state @ new" "list_all2 ?T seq new"
    "map page new = map (\<lambda>x. x) seq" "linked (frames init_state) new"
    "page_faults st' = page_faults init_state + length (filter page_fault new)"
    by blast
  from run(3) have "\<forall>r\<in>set new. ?T 0 r"
    by (auto dest: list_all2_rightD [where Q = "\<lambda>r. ?T 0 r"])
  with run show ?thesis
    by (simp add: fifo_def finish_def init_state_def)
qed

lemma lru_step_trace:
  assumes "1 \<le> c" "frames_ok c s"
  shows "\<exists>s'. lru_step c pg s = Inr s' \<and> frames_ok c s' \<and> stepped pg s s' \<and>
     demand_step c (last (steps_acc s'))"
proof -
  from lru_step_spec [OF assms, of pg] obtain s' where
    s': "lru_step c pg s = Inr s'" "stepped pg s s'" "frames_ok c s'"
      "frames s' = (if pg \<in> set (frames s) then remove1 pg (frames s) @ [pg]
                  else if int (length (frames s)) < c then frames s @ [pg]
                  else tl (frames s) @ [pg])"
    by blast
  have "demand_step c (last (steps_acc s'))"
  proof (cases "pg \<notin> set (frames s) \<and> \<not> int (length (frames s)) < c")
    case False
    with s' assms(2) show ?thesis
      by (auto simp: stepped_last demand_step_def frames_ok_def)
  next
    case True
    with assms obtain v rest where fs: "frames s = v # rest"
      by (cases "frames s") (auto simp: frames_ok_def)
    with assms(2) have "set (rest @ [pg]) = insert pg (set (frames s) - {v})"
      by (auto simp: frames_ok_def)
    with True s' assms(2) fs show ?thesis
      by (auto simp: stepped_last demand_step_def frames_ok_def)
  qed
  with s' show ?thesis by simp
qed

lemma lru_run:
  assumes "1 \<le> c"
  shows "\<exists>res. lru seq c = Inr res \<and> map page (steps res) = seq \<and> linked [] (steps res) \<and>
     faults res = length (filter page_fault (steps res)) \<and>
     (\<forall>r\<in>set (steps res). demand_step c r)"
proof -
  let ?T = "\<lambda>(x::int) r. demand_step c r"
  have I0: "frames_ok c init_state" using assms by simp
  from for_each_trace [where I = "frames_ok c" and body = "lru_step c" and g = "\<lambda>x. x"
      and T = ?T and xs = seq, OF lru_step_trace [OF assms] I0]
  obtain st' new where run: "for_each (lru_step c) seq init_state = Inr st'"
    "steps_acc st' = steps_acc init_state @ new" "list_all2 ?T seq new"
    "map page new = map (\<lambda>x. x) seq" "linked (frames init_state) new"
    "page_faults st' = page_faults init_state + length (filter page_fault new)"
    by blast
  from run(3) have "\<forall>r\<in>set new. demand_step c r"
    by (auto dest: list_all2_rightD [where Q = "demand_step c"])
  with run show ?thesis
    by (simp add: lru_def finish_def init_state_def)
qed

lemma optimal_step_trace:
  assumes "1 \<le> c" "frames_ok c s"
  shows "\<exists>s'. optimal_step c future pg s = Inr s' \<and> frames_ok c s' \<and> stepped pg s s' \<and>
     (demand_step c (last (steps_acc s')) \<and>
      (\<not> page_fault (last (steps_acc s')) \<longrightarrow>
         frames_before (last (steps_acc s')) = frames_after (last (steps_acc s'))) \<and>
      evicts_furthest c future (last (steps_acc s')))"
proof -
  from optimal_step_spec [OF assms, of future pg] obtain s' where
    s': "optimal_step c future pg s = Inr s'" "stepped pg s s'" "frames_ok c s'"
      "pg \<in> set (frames s) \<longrightarrow> frames s' = frames s"
      "pg \<notin> set (frames s) \<and> int (length (frames s)) < c \<longrightarrow> frames s' = frames s @ [pg]"
      "pg \<notin> set (frames s) \<and> \<not> int (length (frames s)) < c \<longrightarrow>
        (\<exists>k. furthest_first (frames s) future k \<and> frames s' = (frames s)[k := pg])"
    by blast
  from assms(2) have d: "distinct (frames s)" by (simp add: frames_ok_def)
  have ev: "evicts_furthest c future (last (steps_acc s'))"
    using s'(2,6) by (auto simp: stepped_last evicts_furthest_def)
  have "demand_step c (last (steps_acc s'))"
  proof (cases "pg \<notin> set (frames s) \<and> \<not> int (length (frames s)) < c")
    case False
    with s' assms(2) show ?thesis
      by (auto simp: stepped_last demand_step_def frames_ok_def)
  next
    case True
    with s'(6) obtain k where k: "furthest_first (frames s) future k"
      "frames s' = (frames s)[k := pg]" by blast
    then have kl: "k < length (frames s)" by (simp add: furthest_first_def)
    have "set (frames s') = insert pg (set (frames s) - {frames s ! k})"
      using k(2) d kl by (simp add: set_update_distinct)
    moreover have "frames s ! k \<in> set (frames s)" using kl by simp
    ultimately have "\<exists>v\<in>set (frames s). set (frames s') = insert pg (set (frames s) - {v})"
      by blast
    with True s'(2,3) assms(2) show ?thesis
      by (simp add: stepped_last demand_step_def frames_ok_def)
  qed
  with s' ev show ?thesis by (auto simp: stepped_last)
qed

lemma optimal_run:
  assumes "1 \<le> c"
  shows "\<exists>res. optimal seq c = Inr res \<and> map page (steps res) = seq \<and>
     linked [] (steps res) \<and>
     faults res = length (filter page_fault (steps res)) \<and>
     (\<forall>r\<in>set (steps res). demand_step c r \<and>
        (\<not> page_fault r \<longrightarrow> frames_before r = frames_after r)) \<and>
     (\<forall>i<length seq. evicts_furthest c (drop (i + 1) seq) (steps res ! i))"
proof -
  let ?Q = "\<lambda>r. demand_step c r \<and> (\<not> page_fault r \<longrightarrow> frames_before r = frames_after r)"
  let ?T = "\<lambda>x r. ?Q r \<and> evicts_furthest c (drop (fst x + 1) seq) r"
  let ?body = "\<lambda>(i, pg). optimal_step c (drop (i + 1) seq) pg"
  have I0: "frames_ok c init_state" using assms by simp
  have step: "\<exists>s'. ?body x s = Inr s' \<and> frames_ok c s' \<and> stepped (snd x) s s' \<and>
      ?T x (last (steps_acc s'))" if "frames_ok c s" for x s
    using optimal_step_trace [OF assms that, of "drop (fst x + 1) seq" "snd x"]
    by (cases x) simp
  from for_each_trace [where I = "frames_ok c" and body = ?body and g = snd
      and T = ?T and xs = "List.enumerate 0 seq", OF step I0]
  obtain st' new where run: "for_each ?body (List.enumerate 0 seq) init_state = Inr st'"
    "steps_acc st' = steps_acc init_state @ new" "list_all2 ?T (List.enumerate 0 seq) new"
    "map page new = map snd (List.enumerate 0 seq)" "linked (frames init_state) new"
    "page_faults st' = page_faults init_state + length (filter page_fault new)"
    by blast
  from run(3) have len: "length new = length seq"
    by (auto dest: list_all2_lengthD)
  have ix: "evicts_furthest c (drop (i + 1) seq) (new ! i)" if "i < length seq" for i
    using list_all2_nthD [OF run(3), of i] that by (simp add: nth_enumerate_eq)
  have all: "\<forall>r\<in>set new. ?Q r"
  proof
    fix r assume "r \<in> set new"
    then obtain i where "i < length new" "new ! i = r" by (auto simp: in_set_conv_nth)
    with list_all2_nthD2 [OF run(3), of i] show "?Q r" by simp
  qed
  from run ix all show ?thesis
    by (simp add: optimal_def finish_def init_state_def)
qed

lemma clock_ok_init [simp]: "clock_ok c init_clock_state = (0 < c)"
  by (auto simp: clock_ok_def frames_ok_def init_clock_state_def)

lemma second_chance_step_trace:
  assumes "1 \<le> c" "clock_ok c s"
  shows "\<exists>s'. second_chance_step c pg s = Inr s' \<and> clock_ok c s' \<and> stepped pg s s' \<and>
     (demand_step c (last (steps_acc s')) \<and>
      (\<not> page_fault (last (steps_acc s')) \<longrightarrow>
         frames_before (last (steps_acc s')) = frames_after (last (steps_acc s'))) \<and>
      (page_fault (last (steps_acc s')) \<and>
         int (length (frames_before (last (steps_acc s')))) = c \<longrightarrow>
         replaced_in_place (last (steps_acc s'))))"
proof -
  from second_chance_step_spec [OF assms, of pg] obtain s' where
    s': "second_chance_step c pg s = Inr s'" "stepped pg s s'" "clock_ok c s'"
      "pg \<in> set (frames s) \<longrightarrow> frames s' = frames s"
      "pg \<notin> set (frames s) \<and> int (length (frames s)) < c \<longrightarrow> frames s' = frames s @ [pg]"
      "pg \<notin> set (frames s) \<and> \<not> int (length (frames s)) < c \<longrightarrow>
        second_chance_victim s < length (frames s) \<and>
        frames s' = (frames s)[second_chance_victim s := pg]"
    by blast
  from assms(2) have ok: "frames_ok c s" and d: "distinct (frames s)"
    by (simp_all add: clock_ok_def frames_ok_def)
  from s'(3) have ok': "frames_ok c s'" by (simp add: clock_ok_def)
  let ?v = "second_chance_victim s"
  have rip: "replaced_in_place (last (steps_acc s'))"
    if "pg \<notin> set (frames s)" "int (length (frames s)) = c"
  proof -
    from that s'(6) have v: "?v < length (frames s)" "frames s' = (frames s)[?v := pg]"
      by simp_all
    then have "frames s ! ?v \<in> set (frames s)" by simp
    with that(1) have "frames s ! ?v \<noteq> pg" by auto
    with v s'(2) show ?thesis by (auto simp: stepped_last replaced_in_place_def)
  qed
  have "demand_step c (last (steps_acc s'))"
  proof (cases "pg \<notin> set (frames s) \<and> \<not> int (length (frames s)) < c")
    case False
    with s' ok ok' show ?thesis
      by (auto simp: stepped_last demand_step_def frames_ok_def)
  next
    case True
    with s'(6) have v: "?v < length (frames s)" "frames s' = (frames s)[?v := pg]"
      by simp_all
    have "set (frames s') = insert pg (set (frames s) - {frames s ! ?v})"
      using v d by (simp add: set_update_distinct)
    moreover have "frames s ! ?v \<in> set (frames s)" using v by simp
    ultimately have "\<exists>v\<in>set (frames s). set (frames s') = insert pg (set (frames s) - {v})"
      by blast
    with True s'(2) ok ok' show ?thesis
      by (simp add: stepped_last demand_step_def frames_ok_def)
  qed
  with s' rip show ?thesis by (auto simp: stepped_last)
qed

lemma second_chance_run:
  assumes "1 \<le> c"
  shows "\<exists>res. second_chance seq c = Inr res \<and> map page (steps res) = seq \<and>
     linked [] (steps res) \<and>
     faults res = length (filter page_fault (steps res)) \<and>
     (\<forall>r\<in>set (steps res). demand_step c r \<and>
        (\<not> page_fault r \<longrightarrow> frames_before r = frames_after r) \<and>
        (page_fault r \<and> int (length (frames_before r)) = c \<longrightarrow> replaced_in_place r))"
proof -
  let ?Q = "\<lambda>r. demand_step c r \<and> (\<not> page_fault r \<longrightarrow> frames_before r = frames_after r) \<and>
        (page_fault r \<and> int (length (frames_before r)) = c \<longrightarrow> replaced_in_place r)"
  let ?T = "\<lambda>(x::int) r. ?Q r"
  have I0: "clock_ok c init_clock_state" using assms by simp
  from for_each_trace [where I = "clock_ok c" and body = "second_chance_step c"
      and g = "\<lambda>x. x" and T = ?T and xs = seq, OF second_chance_step_trace [OF assms] I0]
  obtain st' new where run: "for_each (second_chance_step c) seq init_clock_state = Inr st'"
    "steps_acc st' = steps_acc init_clock_state @ new" "list_all2 ?T seq new"
    "map page new = map (\<lambda>x. x) seq" "linked (frames init_clock_state) new"
    "page_faults st' = page_faults init_clock_state + length (filter page_fault new)"
    by blast
  have "\<forall>r\<in>set new. ?Q r"
  proof
    fix r assume "r \<in> set new"
    with run(3) show "?Q r" by (rule list_all2_rightD [where Q = ?Q])
  qed
  with run show ?thesis
    by (simp add: second_chance_def finish_def init_clock_state_def)
qed

lemma clock_loop_eq:
  assumes "1 \<le> c"
  shows "for_each (clock_step c) seq init_clock_state =
         for_each (second_chance_step c) seq init_clock_state"
proof -
  have agree: "clock_step c x s = second_chance_step c x s" if "clock_ok c s" for x s
    using that by (intro clock_step_eq) (simp add: clock_ok_def)
  have keep: "clock_ok c s'" if "clock_ok c s" "clock_step c x s = Inr s'" for x s s'
    using second_chance_step_spec [OF assms that(1), of x] that agree [of s x] by auto
  have I0: "clock_ok c init_clock_state" using assms by simp
  from agree keep I0 show ?thesis
    by (rule for_each_agree [where I = "clock_ok c"])
qed

lemma clock_eq_second_chance: "1 \<le> c \<Longrightarrow> clock seq c = second_chance seq c"
  by (simp add: clock_def second_chance_def clock_loop_eq)

section \<open>Whole runs\<close>

lemma ALGORITHMS_cases:
  assumes "ALGORITHMS name = Some policy"
  shows "policy = fifo \<or> policy = lru \<or> policy = optimal \<or> policy = second_chance \<or>
         policy = clock"
  using assms by (auto simp: ALGORITHMS_def split: if_splits)

lemma clock_run:
  assumes "1 \<le> c"
  shows "\<exists>res. clock seq c = Inr res \<and> map page (steps res) = seq \<and>
     linked [] (steps res) \<and>
     faults res = length (filter page_fault (steps res)) \<and>
     (\<forall>r\<in>set (steps res). demand_step c r \<and>
        (\<not> page_fault r \<longrightarrow> frames_before r = frames_after r) \<and>
        (page_fault r \<and> int (length (frames_before r)) = c \<longrightarrow> replaced_in_place r))"
  using second_chance_run [OF assms, of seq] by (simp add: clock_eq_second_chance [OF assms])

lemma demand_run_sched:
  assumes "map page (steps res) = seq" "linked [] (steps res)"
    "faults res = length (filter page_fault (steps res))"
    "\<forall>r\<in>set (steps res). demand_step c r"
  shows "sched (nat c) {} seq (faults res)"
  using linked_demand_sched [OF assms(2,4)] assms(1,3) by simp

lemma optimal_le_sched:
  assumes "1 \<le> c" "sched (nat c) {} seq n" "optimal seq c = Inr res"
  shows "faults res \<le> n"
proof -
  have ok: "frames_ok c init_state" using assms(1) by simp
  have "sched (nat c) (set (frames init_state)) seq n"
    using assms(2) by (simp add: init_state_def)
  from optimal_beats_sched [OF assms(1) this ok] obtain s' where
    s': "opt_tail c seq init_state = Inr s'" "page_faults s' \<le> page_faults init_state + n"
    by blast
  have "for_each (\<lambda>(i, pg). optimal_step c (drop (i + 1) seq) pg)
     (List.enumerate 0 seq) init_state = opt_tail c seq init_state"
    using optimal_loop_tail [of c "[]" seq init_state] by simp
  with s' assms(3) show ?thesis
    by (auto simp: optimal_def finish_def init_state_def)
qed

lemma policy_run:
  assumes "ALGORITHMS name = Some policy" "1 \<le> c"
  shows "\<exists>res. policy seq c = Inr res \<and> map page (steps res) = seq \<and>
     faults res = length (filter page_fault (steps res)) \<and>
     (\<forall>r\<in>set (steps res). demand_step c r)"
proof -
  from ALGORITHMS_cases [OF assms(1)]
  consider "policy = fifo" | "policy = lru" | "policy = optimal" | "policy = second_chance"
    | "policy = clock" by blast
  then show ?thesis
  proof cases
    case 1
    with fifo_run [OF assms(2), of seq] show ?thesis by auto
  next
    case 2
    with lru_run [OF assms(2), of seq] show ?thesis by auto
  next
    case 3
    with optimal_run [OF assms(2), of seq] show ?thesis by auto
  next
    case 4
    with second_chance_run [OF assms(2), of seq] show ?thesis by auto
  next
    case 5
    with clock_run [OF assms(2), of seq] show ?thesis by auto
  qed
qed

section \<open>Faults with full frames\<close>

lemma replaced_in_place_nth:
  assumes "replaced_in_place r"
  shows "\<exists>k<length (frames_before r).
     length (frames_after r) = length (frames_before r) \<and>
     frames_after r ! k = page r \<and> frames_before r ! k \<noteq> page r \<and>
     (\<forall>j<length (frames_before r). j \<noteq> k \<longrightarrow> frames_after r ! j = frames_before r ! j)"
proof -
  from assms obtain k where k: "k < length (frames_before r)"
    "frames_after r = (frames_before r)[k := page r]" "frames_before r ! k \<noteq> page r"
    by (auto simp: replaced_in_place_def)
  then have "length (frames_after r) = length (frames_before r) \<and>
     frames_after r ! k = page r \<and> frames_before r ! k \<noteq> page r \<and>
     (\<forall>j<length (frames_before r). j \<noteq> k \<longrightarrow> frames_after r ! j = frames_before r ! j)"
    by simp
  with k(1) show ?thesis by blast
qed

lemma evicts_furthest_in_place:
  assumes "evicts_furthest c future r" "demand_step c r" "page_fault r"
    "int (length (frames_before r)) = c"
  shows "replaced_in_place r"
proof -
  from assms(1,3,4) obtain k where k: "furthest_first (frames_before r) future k"
    "frames_after r = (frames_before r)[k := page r]"
    by (auto simp: evicts_furthest_def)
  then have kl: "k < length (frames_before r)" by (simp add: furthest_first_def)
  then have "frames_before r ! k \<in> set (frames_before r)" by simp
  moreover from assms(2,3) have "page r \<notin> set (frames_before r)"
    by (simp add: demand_step_def)
  ultimately have "frames_before r ! k \<noteq> page r" by auto
  with k(2) kl show ?thesis by (auto simp: replaced_in_place_def)
qed

lemma optimal_run_in_place:
  assumes "1 \<le> c"
  shows "\<exists>res. optimal seq c = Inr res \<and> map page (steps res) = seq \<and>
     linked [] (steps res) \<and>
     (\<forall>r\<in>set (steps res). demand_step c r \<and>
        (page_fault r \<and> int (length (frames_before r)) = c \<longrightarrow> replaced_in_place r))"
proof -
  from optimal_run [OF assms, of seq] obtain res where
    res: "optimal seq c = Inr res" "map page (steps res) = seq" "linked [] (steps res)"
      "\<forall>r\<in>set (steps res). demand_step c r"
      "\<forall>i<length seq. evicts_furthest c (drop (i + 1) seq) (steps res ! i)"
    by blast
  from arg_cong [OF res(2), of length] have len: "length (steps res) = length seq" by simp
  have "replaced_in_place r"
    if "r \<in> set (steps res)" "page_fault r" "int (length (frames_before r)) = c" for r
  proof -
    from that(1) obtain i where i: "i < length (steps res)" "steps res ! i = r"
      by (auto simp: in_set_conv_nth)
    with res(5) len have "evicts_furthest c (drop (i + 1) seq) r" by auto
    moreover from res(4) that(1) have "demand_step c r" by simp
    ultimately show ?thesis using that(2,3) by (rule evicts_furthest_in_place)
  qed
  with res(1-4) show ?thesis by blast
qed

lemma overwrites_one_slotI:
  assumes "map page (steps res) = seq" "linked [] (steps res)"
    "\<forall>r\<in>set (steps res).
       page_fault r \<and> int (length (frames_before r)) = c \<longrightarrow> replaced_in_place r"
  shows "overwrites_one_slot c seq res"
proof -
  from arg_cong [OF assms(1), of length] have len: "length (steps res) = length seq" by simp
  have "page (steps res ! i) = seq ! i \<and>
        (page_fault (steps res ! i) \<and> int (length (frames_before (steps res ! i))) = c \<longrightarrow>
          (\<exists>k<length (frames_before (steps res ! i)).
             length (frames_after (steps res ! i)) = length (frames_before (steps res ! i)) \<and>
             frames_after (steps res ! i) ! k = seq ! i \<and>
             frames_before (steps res ! i) ! k \<noteq> seq ! i \<and>
             (\<forall>j<length (frames_before (steps res ! i)).
                j \<noteq> k \<longrightarrow>
                frames_after (steps res ! i) ! j = frames_before (steps res ! i) ! j)))"
    if i: "i < length seq" for i
  proof -
    let ?r = "steps res ! i"
    from i len have mem: "?r \<in> set (steps res)" by simp
    from i len have pg: "page ?r = seq ! i"
      using nth_map [of i "steps res" page] assms(1) by simp
    show ?thesis
    proof (intro conjI impI)
      show "page ?r = seq ! i" by (rule pg)
    next
      assume "page_fault ?r \<and> int (length (frames_before ?r)) = c"
      with assms(3) mem have "replaced_in_place ?r" by blast
      from replaced_in_place_nth [OF this] pg
      show "\<exists>k<length (frames_before ?r).
             length (frames_after ?r) = length (frames_before ?r) \<and>
             frames_after ?r ! k = seq ! i \<and>
             frames_before ?r ! k \<noteq> seq ! i \<and>
             (\<forall>j<length (frames_before ?r).
                j \<noteq> k \<longrightarrow> frames_after ?r ! j = frames_before ?r ! j)"
        by simp
    qed
  qed
  with len assms(2) show ?thesis by (simp add: overwrites_one_slot_def)
qed


lemma overwrites_one_slotD:
  assumes "overwrites_one_slot c seq res" "i < length seq" "page_fault (steps res ! i)"
    "int (length (frames_before (steps res ! i))) = c"
  shows "\<exists>k<length (frames_before (steps res ! i)).
     length (frames_after (steps res ! i)) = length (frames_before (steps res ! i)) \<and>
     frames_after (steps res ! i) ! k = seq ! i \<and>
     frames_before (steps res ! i) ! k \<noteq> seq ! i \<and>
     (\<forall>j<length (frames_before (steps res ! i)).
        j \<noteq> k \<longrightarrow> frames_after (steps res ! i) ! j = frames_before (steps res ! i) ! j)"
  using assms by (simp add: overwrites_one_slot_def)

section \<open>Capacity below one\<close>

lemma sweep_empty: "sweep m [] 0 = Inl IndexError"
  by (subst sweep.simps) (simp add: py_pos_def)

lemma fifo_small_capacity:
  assumes "c < 1"
  shows "fifo seq c = (if seq = [] then Inr \<lparr>faults = 0, steps = []\<rparr> else Inl IndexError)"
proof (cases seq)
  case Nil
  then show ?thesis by (simp add: fifo_def finish_def init_state_def)
next
  case (Cons x xs)
  have "fifo_step c x init_state = Inl IndexError"
    using assms by (simp add: fifo_step_def init_state_def pop0_def)
  then show ?thesis using Cons by (simp add: fifo_def finish_def)
qed

lemma lru_small_capacity:
  assumes "c < 1"
  shows "lru seq c = (if seq = [] then Inr \<lparr>faults = 0, steps = []\<rparr> else Inl IndexError)"
proof (cases seq)
  case Nil
  then show ?thesis by (simp add: lru_def finish_def init_state_def)
next
  case (Cons x xs)
  have "lru_step c x init_state = Inl IndexError"
    using assms by (simp add: lru_step_def init_state_def pop0_def)
  then show ?thesis using Cons by (simp add: lru_def finish_def)
qed

lemma optimal_small_capacity:
  assumes "c < 1"
  shows "optimal seq c = (if seq = [] then Inr \<lparr>faults = 0, steps = []\<rparr> else Inl ValueError)"
proof (cases seq)
  case Nil
  then show ?thesis by (simp add: optimal_def finish_def init_state_def)
next
  case (Cons x xs)
  have "optimal_step c future x init_state = Inl ValueError" for future
    using assms by (simp add: optimal_step_def init_state_def replace_page_def)
  then show ?thesis using Cons by (simp add: optimal_def finish_def enumerate_simps)
qed

lemma second_chance_small_capacity:
  assumes "c < 1"
  shows "second_chance seq c =
     (if seq = [] then Inr \<lparr>faults = 0, steps = []\<rparr> else Inl IndexError)"
proof (cases seq)
  case Nil
  then show ?thesis by (simp add: second_chance_def finish_def init_clock_state_def)
next
  case (Cons x xs)
  have "second_chance_step c x init_clock_state = Inl IndexError"
    using assms
    by (simp add: second_chance_step_def init_clock_state_def replace_at_pointer_def sweep_empty)
  then show ?thesis using Cons by (simp add: second_chance_def finish_def)
qed

lemma clock_small_capacity:
  assumes "c < 1"
  shows "clock seq c = (if seq = [] then Inr \<lparr>faults = 0, steps = []\<rparr> else Inl IndexError)"
proof (cases seq)
  case Nil
  then show ?thesis by (simp add: clock_def finish_def init_clock_state_def)
next
  case (Cons x xs)
  have "clock_step c x init_clock_state = Inl IndexError"
    using assms
    by (simp add: clock_step_def init_clock_state_def replace_at_pointer_def sweep_empty)
  then show ?thesis using Cons by (simp add: clock_def finish_def)
qed

section \<open>The pointer of Second Chance\<close>

lemma second_chance_reachable:
  assumes "1 \<le> c" "for_each (second_chance_step c) pre init_clock_state = Inr s"
  shows "clock_ok c s"
proof -
  have I0: "clock_ok c init_clock_state" using assms(1) by simp
  from for_each_trace [where I = "clock_ok c" and body = "second_chance_step c"
      and g = "\<lambda>x. x" and T = "\<lambda>x r. True" and xs = pre and st = init_clock_state]
    second_chance_step_spec [OF assms(1)] I0
  obtain st' where "for_each (second_chance_step c) pre init_clock_state = Inr st'"
    "clock_ok c st'"
    by (metis (no_types, lifting))
  with assms(2) show ?thesis by simp
qed

lemma swept_bits_nth:
  assumes "j < c" "v < c"
  shows "(cleared c bits p k)[v := 1] ! j =
     (if j = v then 1 else if j \<in> (\<lambda>i. (p + i) mod c) ` {..<k} then 0 else bits ! j)"
  using assms by (simp add: nth_list_update cleared_nth)

section \<open>The properties\<close>

text \<open>
  C1. On the reference sequence \<open>[1,2,3,4,1,2,5,1,2,3,4,5]\<close> with three frames,
  \<open>fifo\<close> returns 9 faults, \<open>lru\<close> returns 10 faults and \<open>optimal\<close> returns 7 faults.
\<close>

theorem sample_run_fault_counts:
  "map_sum (\<lambda>e. e) faults (fifo [1, 2, 3, 4, 1, 2, 5, 1, 2, 3, 4, 5] 3) = Inr 9 \<and>
   map_sum (\<lambda>e. e) faults (lru [1, 2, 3, 4, 1, 2, 5, 1, 2, 3, 4, 5] 3) = Inr 10 \<and>
   map_sum (\<lambda>e. e) faults (optimal [1, 2, 3, 4, 1, 2, 5, 1, 2, 3, 4, 5] 3) = Inr 7"
  by code_simp

text \<open>
  C2. For every reference sequence and every capacity of at least 1, all five policies
  return, and the fault count of \<open>optimal\<close> is at most that of \<open>fifo\<close>, of \<open>lru\<close>, of
  \<open>second_chance\<close> and of \<open>clock\<close> on the same input.
\<close>

theorem optimal_faults_least:
  assumes "1 \<le> frame_size"
  shows "\<exists>ro rf rl rs rc.
     optimal reference_string frame_size = Inr ro \<and>
     fifo reference_string frame_size = Inr rf \<and>
     lru reference_string frame_size = Inr rl \<and>
     second_chance reference_string frame_size = Inr rs \<and>
     clock reference_string frame_size = Inr rc \<and>
     faults ro \<le> faults rf \<and> faults ro \<le> faults rl \<and>
     faults ro \<le> faults rs \<and> faults ro \<le> faults rc"
proof -
  from optimal_run [OF assms, of reference_string] obtain ro where
    ro: "optimal reference_string frame_size = Inr ro" by blast
  from fifo_run [OF assms, of reference_string] obtain rf where
    rf: "fifo reference_string frame_size = Inr rf"
    and "sched (nat frame_size) {} reference_string (faults rf)"
    by (auto intro: demand_run_sched)
  then have 1: "faults ro \<le> faults rf" using optimal_le_sched [OF assms _ ro] by simp
  from lru_run [OF assms, of reference_string] obtain rl where
    rl: "lru reference_string frame_size = Inr rl"
    and "sched (nat frame_size) {} reference_string (faults rl)"
    by (auto intro: demand_run_sched)
  then have 2: "faults ro \<le> faults rl" using optimal_le_sched [OF assms _ ro] by simp
  from second_chance_run [OF assms, of reference_string] obtain rs where
    rs: "second_chance reference_string frame_size = Inr rs"
    and "sched (nat frame_size) {} reference_string (faults rs)"
    by (auto intro: demand_run_sched)
  then have 3: "faults ro \<le> faults rs" using optimal_le_sched [OF assms _ ro] by simp
  from clock_run [OF assms, of reference_string] obtain rc where
    rc: "clock reference_string frame_size = Inr rc"
    and "sched (nat frame_size) {} reference_string (faults rc)"
    by (auto intro: demand_run_sched)
  then have 4: "faults ro \<le> faults rc" using optimal_le_sched [OF assms _ ro] by simp
  from ro rf rl rs rc 1 2 3 4 show ?thesis by simp
qed

theorem optimal_faults_least_witness:
  "(1::int) \<le> 2 \<and>
   (\<exists>ro rf rl rs rc.
     optimal [1, 2, 3, 1, 2] 2 = Inr ro \<and> fifo [1, 2, 3, 1, 2] 2 = Inr rf \<and>
     lru [1, 2, 3, 1, 2] 2 = Inr rl \<and> second_chance [1, 2, 3, 1, 2] 2 = Inr rs \<and>
     clock [1, 2, 3, 1, 2] 2 = Inr rc \<and>
     faults ro = 4 \<and> faults rf = 5 \<and> faults rl = 5 \<and> faults rs = 5 \<and> faults rc = 5 \<and>
     faults ro \<le> faults rf \<and> faults ro \<le> faults rl \<and>
     faults ro \<le> faults rs \<and> faults ro \<le> faults rc)"
proof -
  have ev: "map_sum (\<lambda>e. e) faults (optimal [1, 2, 3, 1, 2] 2) = Inr 4"
    "map_sum (\<lambda>e. e) faults (fifo [1, 2, 3, 1, 2] 2) = Inr 5"
    "map_sum (\<lambda>e. e) faults (lru [1, 2, 3, 1, 2] 2) = Inr 5"
    "map_sum (\<lambda>e. e) faults (second_chance [1, 2, 3, 1, 2] 2) = Inr 5"
    "map_sum (\<lambda>e. e) faults (clock [1, 2, 3, 1, 2] 2) = Inr 5"
    by code_simp+
  from optimal_faults_least [of 2 "[1, 2, 3, 1, 2]"] ev
  show ?thesis by auto
qed

text \<open>
  C3, as the specification states it: with capacity 0 and any reference sequence every
  policy fails and returns nothing. It does not hold for the empty reference sequence,
  on which every policy returns zero faults and an empty trace.
\<close>

theorem capacity_zero_empty_sequence_returns:
  "fifo [] 0 = Inr \<lparr>faults = 0, steps = []\<rparr> \<and>
   lru [] 0 = Inr \<lparr>faults = 0, steps = []\<rparr> \<and>
   optimal [] 0 = Inr \<lparr>faults = 0, steps = []\<rparr> \<and>
   second_chance [] 0 = Inr \<lparr>faults = 0, steps = []\<rparr> \<and>
   clock [] 0 = Inr \<lparr>faults = 0, steps = []\<rparr>"
  by (simp add: fifo_def lru_def optimal_def second_chance_def clock_def finish_def
      init_state_def init_clock_state_def)

text \<open>
  C3, amended. With a capacity below 1, every registered policy raises on the first
  reference of a non-empty reference sequence and returns no dictionary: \<open>optimal\<close>
  raises ValueError (from \<open>frames.index(None)\<close>), the other four raise IndexError (from
  \<open>frames.pop(0)\<close> or \<open>ref_bits[pointer]\<close> on an empty list). On the empty reference
  sequence every policy returns zero faults and no step record.
\<close>

theorem capacity_below_one_raises:
  assumes "ALGORITHMS name = Some policy" "frame_size < 1"
  shows "policy reference_string frame_size =
     (if reference_string = [] then Inr \<lparr>faults = 0, steps = []\<rparr>
      else if name = ''Optimal'' then Inl ValueError else Inl IndexError)"
  using assms
  by (auto simp: ALGORITHMS_def fifo_small_capacity lru_small_capacity optimal_small_capacity
      second_chance_small_capacity clock_small_capacity split: if_splits)

theorem capacity_below_one_raises_witness:
  "ALGORITHMS ''Optimal'' = Some optimal \<and> ALGORITHMS ''Clock'' = Some clock \<and> (0::int) < 1 \<and>
   optimal [7, 8] 0 = Inl ValueError \<and> clock [7, 8] 0 = Inl IndexError \<and>
   clock [] 0 = Inr \<lparr>faults = 0, steps = []\<rparr>"
proof -
  have o: "ALGORITHMS ''Optimal'' = Some optimal" and c: "ALGORITHMS ''Clock'' = Some clock"
    by (simp_all add: ALGORITHMS_def)
  have z: "(0::int) < 1" by simp
  from capacity_below_one_raises [OF o z, of "[7, 8]"]
    capacity_below_one_raises [OF c z, of "[7, 8]"]
    capacity_below_one_raises [OF c z, of "[]"] o c
  show ?thesis by simp
qed

text \<open>
  C4. For every registered policy, every reference sequence and every capacity of at
  least 1, the run returns, and in every step record \<open>frames_after\<close> has at most
  \<open>frame_size\<close> entries and no page twice.
\<close>

theorem frames_after_bounded_distinct:
  assumes "ALGORITHMS name = Some policy" "1 \<le> frame_size"
  shows "\<exists>res. policy reference_string frame_size = Inr res \<and>
     (\<forall>r\<in>set (steps res).
        int (length (frames_after r)) \<le> frame_size \<and> distinct (frames_after r))"
  using policy_run [OF assms, of reference_string] by (auto simp: demand_step_def)

theorem frames_after_bounded_distinct_witness:
  "ALGORITHMS ''Clock'' = Some clock \<and> (1::int) \<le> 2 \<and>
   (\<exists>res. clock [1, 2, 3, 1] 2 = Inr res \<and> length (steps res) = 4 \<and>
     (\<forall>r\<in>set (steps res). int (length (frames_after r)) \<le> 2 \<and> distinct (frames_after r)))"
proof -
  have reg: "ALGORITHMS ''Clock'' = Some clock" by (simp add: ALGORITHMS_def)
  have cap: "(1::int) \<le> 2" by simp
  from policy_run [OF reg cap, of "[1, 2, 3, 1]"] obtain res where
    res: "clock [1, 2, 3, 1] 2 = Inr res" "map page (steps res) = [1, 2, 3, 1]" by auto
  from arg_cong [OF res(2), of length] have "length (steps res) = 4" by simp
  with frames_after_bounded_distinct [OF reg cap, of "[1, 2, 3, 1]"] res(1) reg
  show ?thesis by auto
qed

text \<open>
  C5. For every registered policy, every reference sequence and every capacity of at
  least 1, the run returns one step record per position of the reference sequence, in
  order (so none for the empty sequence), and \<open>faults\<close> is the number of step records
  whose \<open>page_fault\<close> is true.
\<close>

theorem one_step_per_reference:
  assumes "ALGORITHMS name = Some policy" "1 \<le> frame_size"
  shows "\<exists>res. policy reference_string frame_size = Inr res \<and>
     length (steps res) = length reference_string \<and>
     map page (steps res) = reference_string \<and>
     faults res = length (filter page_fault (steps res))"
proof -
  from policy_run [OF assms, of reference_string] obtain res where
    res: "policy reference_string frame_size = Inr res"
      "map page (steps res) = reference_string"
      "faults res = length (filter page_fault (steps res))"
    by blast
  from arg_cong [OF res(2), of length] have "length (steps res) = length reference_string"
    by simp
  with res show ?thesis by simp
qed

theorem one_step_per_reference_witness:
  "ALGORITHMS ''LRU'' = Some lru \<and> (1::int) \<le> 2 \<and>
   (\<exists>res. lru [1, 2, 1, 3] 2 = Inr res \<and> length (steps res) = length [1, 2, 1, 3 :: int] \<and>
      map page (steps res) = [1, 2, 1, 3] \<and>
      faults res = length (filter page_fault (steps res))) \<and>
   (\<exists>res. lru [] 2 = Inr res \<and> length (steps res) = length ([] :: int list) \<and>
      map page (steps res) = [] \<and>
      faults res = length (filter page_fault (steps res)))"
proof -
  have reg: "ALGORITHMS ''LRU'' = Some lru" by (simp add: ALGORITHMS_def)
  have cap: "(1::int) \<le> 2" by simp
  from one_step_per_reference [OF reg cap, of "[1, 2, 1, 3]"]
    one_step_per_reference [OF reg cap, of "[]"] reg
  show ?thesis by simp
qed

text \<open>
  C6. For every reference sequence and every capacity of at least 1, at every step whose
  \<open>page_fault\<close> is false, \<open>fifo\<close> and \<open>optimal\<close> have \<open>frames_before = frames_after\<close>,
  and \<open>lru\<close>, \<open>second_chance\<close> and \<open>clock\<close> have the same set of pages in
  \<open>frames_before\<close> and \<open>frames_after\<close>.
\<close>

theorem hit_keeps_resident_pages:
  assumes "1 \<le> frame_size"
  shows "\<exists>rf ro rl rs rc.
     fifo reference_string frame_size = Inr rf \<and>
     optimal reference_string frame_size = Inr ro \<and>
     lru reference_string frame_size = Inr rl \<and>
     second_chance reference_string frame_size = Inr rs \<and>
     clock reference_string frame_size = Inr rc \<and>
     (\<forall>r\<in>set (steps rf) \<union> set (steps ro).
        \<not> page_fault r \<longrightarrow> frames_before r = frames_after r) \<and>
     (\<forall>r\<in>set (steps rl) \<union> set (steps rs) \<union> set (steps rc).
        \<not> page_fault r \<longrightarrow> set (frames_before r) = set (frames_after r))"
proof -
  from fifo_run [OF assms, of reference_string] obtain rf where
    rf: "fifo reference_string frame_size = Inr rf"
      "\<forall>r\<in>set (steps rf). \<not> page_fault r \<longrightarrow> frames_before r = frames_after r"
    by blast
  from optimal_run [OF assms, of reference_string] obtain ro where
    ro: "optimal reference_string frame_size = Inr ro"
      "\<forall>r\<in>set (steps ro). \<not> page_fault r \<longrightarrow> frames_before r = frames_after r"
    by blast
  from lru_run [OF assms, of reference_string] obtain rl where
    rl: "lru reference_string frame_size = Inr rl"
      "\<forall>r\<in>set (steps rl). demand_step frame_size r"
    by blast
  from second_chance_run [OF assms, of reference_string] obtain rs where
    rs: "second_chance reference_string frame_size = Inr rs"
      "\<forall>r\<in>set (steps rs). demand_step frame_size r"
    by blast
  from clock_run [OF assms, of reference_string] obtain rc where
    rc: "clock reference_string frame_size = Inr rc"
      "\<forall>r\<in>set (steps rc). demand_step frame_size r"
    by blast
  have sets: "\<not> page_fault r \<longrightarrow> set (frames_before r) = set (frames_after r)"
    if "demand_step frame_size r" for r
    using that by (auto simp: demand_step_def)
  from rl(2) rs(2) rc(2) sets
  have "\<forall>r\<in>set (steps rl) \<union> set (steps rs) \<union> set (steps rc).
        \<not> page_fault r \<longrightarrow> set (frames_before r) = set (frames_after r)"
    by blast
  moreover from rf(2) ro(2)
  have "\<forall>r\<in>set (steps rf) \<union> set (steps ro).
        \<not> page_fault r \<longrightarrow> frames_before r = frames_after r"
    by blast
  ultimately show ?thesis using rf(1) ro(1) rl(1) rs(1) rc(1) by blast
qed

theorem hit_keeps_resident_pages_witness:
  "(1::int) \<le> 2 \<and>
   (\<exists>rf rl.
     fifo [1, 2, 1, 3] 2 = Inr rf \<and> lru [1, 2, 1, 3] 2 = Inr rl \<and>
     \<not> page_fault (steps rf ! 2) \<and> frames_before (steps rf ! 2) = [1, 2] \<and>
     frames_before (steps rf ! 2) = frames_after (steps rf ! 2) \<and>
     \<not> page_fault (steps rl ! 2) \<and> frames_before (steps rl ! 2) = [1, 2] \<and>
     frames_after (steps rl ! 2) = [2, 1] \<and>
     set (frames_before (steps rl ! 2)) = set (frames_after (steps rl ! 2)))"
proof -
  have runf: "fifo [1, 2, 1, 3] 2 =
      Inr \<lparr>faults = 3,
           steps = [\<lparr>page = 1, frames_before = [], frames_after = [1], page_fault = True\<rparr>,
             \<lparr>page = 2, frames_before = [1], frames_after = [1, 2], page_fault = True\<rparr>,
             \<lparr>page = 1, frames_before = [1, 2], frames_after = [1, 2], page_fault = False\<rparr>,
             \<lparr>page = 3, frames_before = [1, 2], frames_after = [2, 3], page_fault = True\<rparr>]\<rparr>"
    by code_simp
  have runl: "lru [1, 2, 1, 3] 2 =
      Inr \<lparr>faults = 3,
           steps = [\<lparr>page = 1, frames_before = [], frames_after = [1], page_fault = True\<rparr>,
             \<lparr>page = 2, frames_before = [1], frames_after = [1, 2], page_fault = True\<rparr>,
             \<lparr>page = 1, frames_before = [1, 2], frames_after = [2, 1], page_fault = False\<rparr>,
             \<lparr>page = 3, frames_before = [2, 1], frames_after = [1, 3], page_fault = True\<rparr>]\<rparr>"
    by code_simp
  from hit_keeps_resident_pages [of 2 "[1, 2, 1, 3]"] obtain rf rl where
    rf: "fifo [1, 2, 1, 3] 2 = Inr rf"
      "\<forall>r\<in>set (steps rf). \<not> page_fault r \<longrightarrow> frames_before r = frames_after r"
    and rl: "lru [1, 2, 1, 3] 2 = Inr rl"
      "\<forall>r\<in>set (steps rl). \<not> page_fault r \<longrightarrow> set (frames_before r) = set (frames_after r)"
    by auto
  from rf(1) runf have sf: "steps rf ! 2 =
      \<lparr>page = 1, frames_before = [1, 2], frames_after = [1, 2], page_fault = False\<rparr>"
    and lf: "length (steps rf) = 4" by auto
  from rl(1) runl have sl: "steps rl ! 2 =
      \<lparr>page = 1, frames_before = [1, 2], frames_after = [2, 1], page_fault = False\<rparr>"
    and ll: "length (steps rl) = 4" by auto
  from lf have memf: "steps rf ! 2 \<in> set (steps rf)" by (intro nth_mem) simp
  from bspec [OF rf(2) memf] sf
  have f: "frames_before (steps rf ! 2) = frames_after (steps rf ! 2)" by simp
  from ll have meml: "steps rl ! 2 \<in> set (steps rl)" by (intro nth_mem) simp
  from bspec [OF rl(2) meml] sl
  have l: "set (frames_before (steps rl ! 2)) = set (frames_after (steps rl ! 2))"
    by simp
  from rf(1) rl(1) sf sl f l show ?thesis by simp
qed

text \<open>
  C7. In \<open>optimal\<close>, at every fault with full frames, the page that is overwritten is a
  resident page whose next use in \<open>reference_string[i+1:]\<close> is at least as far as that of
  every resident page, a page that is not used again counting as infinitely far, and
  every page before it in \<open>frames\<close> has a strictly nearer next use. The overwritten
  page is no longer resident afterwards.
\<close>

theorem optimal_evicts_furthest_next_use:
  assumes "1 \<le> frame_size"
  shows "\<exists>res. optimal reference_string frame_size = Inr res \<and>
     length (steps res) = length reference_string \<and>
     (\<forall>i<length reference_string.
        page_fault (steps res ! i) \<and>
        int (length (frames_before (steps res ! i))) = frame_size \<longrightarrow>
        (\<exists>k. furthest_first (frames_before (steps res ! i))
                (drop (i + 1) reference_string) k \<and>
             frames_after (steps res ! i) =
               (frames_before (steps res ! i))[k := reference_string ! i] \<and>
             frames_before (steps res ! i) ! k \<notin> set (frames_after (steps res ! i))))"
proof -
  from optimal_run [OF assms, of reference_string] obtain res where
    res: "optimal reference_string frame_size = Inr res"
      "map page (steps res) = reference_string"
      "\<forall>r\<in>set (steps res). demand_step frame_size r"
      "\<forall>i<length reference_string.
         evicts_furthest frame_size (drop (i + 1) reference_string) (steps res ! i)"
    by blast
  from arg_cong [OF res(2), of length]
  have len: "length (steps res) = length reference_string" by simp
  have "\<exists>k. furthest_first (frames_before (steps res ! i))
                (drop (i + 1) reference_string) k \<and>
             frames_after (steps res ! i) =
               (frames_before (steps res ! i))[k := reference_string ! i] \<and>
             frames_before (steps res ! i) ! k \<notin> set (frames_after (steps res ! i))"
    if i: "i < length reference_string" and pf: "page_fault (steps res ! i)"
      and full: "int (length (frames_before (steps res ! i))) = frame_size" for i
  proof -
    let ?r = "steps res ! i"
    from i len have mem: "?r \<in> set (steps res)" by simp
    with res(3) have dm: "demand_step frame_size ?r" by simp
    from i len have pg: "page ?r = reference_string ! i"
      using nth_map [of i "steps res" page] res(2) by simp
    from res(4) i pf full obtain k where
      k: "furthest_first (frames_before ?r) (drop (i + 1) reference_string) k"
        "frames_after ?r = (frames_before ?r)[k := page ?r]"
      by (auto simp: evicts_furthest_def)
    then have kl: "k < length (frames_before ?r)" by (simp add: furthest_first_def)
    from dm have d: "distinct (frames_before ?r)" by (simp add: demand_step_def)
    from dm pf have notin: "page ?r \<notin> set (frames_before ?r)" by (simp add: demand_step_def)
    have "set (frames_after ?r) = insert (page ?r) (set (frames_before ?r) - {frames_before ?r ! k})"
      using k(2) d kl by (simp add: set_update_distinct)
    moreover have "frames_before ?r ! k \<noteq> page ?r" using nth_mem [OF kl] notin by auto
    ultimately have "frames_before ?r ! k \<notin> set (frames_after ?r)" by simp
    with k pg show ?thesis by auto
  qed
  with res(1) len show ?thesis by blast
qed

theorem optimal_evicts_furthest_next_use_witness:
  "(1::int) \<le> 3 \<and>
   (\<exists>res. optimal [1, 2, 3, 4] 3 = Inr res \<and>
      page_fault (steps res ! 3) \<and> frames_before (steps res ! 3) = [1, 2, 3] \<and>
      frames_after (steps res ! 3) = [4, 2, 3] \<and>
      (\<exists>k. furthest_first [1, 2, 3] [] k \<and> [4, 2, 3 :: int] = [1, 2, 3][k := 4] \<and>
           [1, 2, 3] ! k \<notin> set [4, 2, 3 :: int]))"
proof -
  have run: "optimal [1, 2, 3, 4] 3 =
      Inr \<lparr>faults = 4,
           steps = [\<lparr>page = 1, frames_before = [], frames_after = [1], page_fault = True\<rparr>,
             \<lparr>page = 2, frames_before = [1], frames_after = [1, 2], page_fault = True\<rparr>,
             \<lparr>page = 3, frames_before = [1, 2], frames_after = [1, 2, 3], page_fault = True\<rparr>,
             \<lparr>page = 4, frames_before = [1, 2, 3], frames_after = [4, 2, 3],
               page_fault = True\<rparr>]\<rparr>"
    by code_simp
  from optimal_evicts_furthest_next_use [of 3 "[1, 2, 3, 4]"] obtain res where
    res: "optimal [1, 2, 3, 4] 3 = Inr res"
    and ev: "\<forall>i<length [1, 2, 3, 4 :: int].
        page_fault (steps res ! i) \<and> int (length (frames_before (steps res ! i))) = 3 \<longrightarrow>
        (\<exists>k. furthest_first (frames_before (steps res ! i)) (drop (i + 1) [1, 2, 3, 4]) k \<and>
             frames_after (steps res ! i) =
               (frames_before (steps res ! i))[k := [1, 2, 3, 4] ! i] \<and>
             frames_before (steps res ! i) ! k \<notin> set (frames_after (steps res ! i)))"
    by auto
  from res run have st: "steps res ! 3 =
      \<lparr>page = 4, frames_before = [1, 2, 3], frames_after = [4, 2, 3], page_fault = True\<rparr>"
    by auto
  from ev [rule_format, of 3] st
  have "\<exists>k. furthest_first [1, 2, 3] [] k \<and> [4, 2, 3 :: int] = [1, 2, 3][k := 4] \<and>
           [1, 2, 3] ! k \<notin> set [4, 2, 3 :: int]"
    by simp
  with res st show ?thesis by simp
qed

text \<open>
  C8. Let \<open>s\<close> be the state \<open>second_chance\<close> has reached after any prefix of the
  reference sequence, \<open>p\<close> its pointer and \<open>c\<close> the capacity. The pointer is in
  \<open>0..<c\<close>. At a fault with full frames there is a number \<open>k \<le> c\<close> of advances: the
  \<open>k\<close> slots \<open>p, p+1, ...\<close> (modulo \<open>c\<close>) had bit 1 and are cleared, slot
  \<open>v = (p + k) mod c\<close> is the first with bit 0 (or \<open>p\<close> itself after a full turn, when
  every bit was 1); the page in slot \<open>v\<close> is replaced by the new page, its bit is set to
  1, every other bit is unchanged, and the pointer becomes \<open>(v + 1) mod c\<close>. At a hit the
  bit of the referenced page is set to 1 and \<open>frames\<close> and the pointer stay as they are.
  At a fault with a free frame the page is appended with bit 1 and the pointer stays.
\<close>

theorem second_chance_pointer_sweep:
  assumes "1 \<le> frame_size"
    and "for_each (second_chance_step frame_size) prefix init_clock_state = Inr s"
  shows "second_chance (prefix @ pg # rest) frame_size =
       finish (case second_chance_step frame_size pg s of
                 Inl e \<Rightarrow> Inl e
               | Inr s' \<Rightarrow> for_each (second_chance_step frame_size) rest s') \<and>
     0 \<le> pointer s \<and> pointer s < frame_size \<and>
     (pg \<notin> set (frames s) \<and> int (length (frames s)) = frame_size \<longrightarrow>
        (\<exists>s' k. second_chance_step frame_size pg s = Inr s' \<and> k \<le> nat frame_size \<and>
           (\<forall>i<k. ref_bits s ! ((nat (pointer s) + i) mod nat frame_size) = 1) \<and>
           (k < nat frame_size \<longrightarrow>
              ref_bits s ! ((nat (pointer s) + k) mod nat frame_size) = 0) \<and>
           frames s' = (frames s)[(nat (pointer s) + k) mod nat frame_size := pg] \<and>
           length (ref_bits s') = nat frame_size \<and>
           (\<forall>j<nat frame_size. ref_bits s' ! j =
              (if j = (nat (pointer s) + k) mod nat frame_size then 1
               else if j \<in> (\<lambda>i. (nat (pointer s) + i) mod nat frame_size) ` {..<k} then 0
               else ref_bits s ! j)) \<and>
           pointer s' =
             (int ((nat (pointer s) + k) mod nat frame_size) + 1) mod frame_size)) \<and>
     (pg \<in> set (frames s) \<longrightarrow>
        (\<exists>s' k. second_chance_step frame_size pg s = Inr s' \<and>
           k < length (frames s) \<and> frames s ! k = pg \<and>
           ref_bits s' = (ref_bits s)[k := 1] \<and>
           frames s' = frames s \<and> pointer s' = pointer s \<and>
           \<not> page_fault (last (steps_acc s')))) \<and>
     (pg \<notin> set (frames s) \<and> int (length (frames s)) < frame_size \<longrightarrow>
        (\<exists>s'. second_chance_step frame_size pg s = Inr s' \<and>
           frames s' = frames s @ [pg] \<and> ref_bits s' = ref_bits s @ [1] \<and>
           pointer s' = pointer s))"
proof -
  let ?c = "nat frame_size"
  let ?p = "nat (pointer s)"
  from second_chance_reachable [OF assms] have ok: "clock_ok frame_size s" .
  then have ptr: "0 \<le> pointer s" "pointer s < frame_size"
    and bits01: "set (ref_bits s) \<subseteq> {0, 1}"
    and lb: "length (ref_bits s) = length (frames s)"
    by (simp_all add: clock_ok_def)
  from second_chance_step_spec [OF assms(1) ok, of pg] obtain s' where
    s': "second_chance_step frame_size pg s = Inr s'" "stepped pg s s'"
      "pg \<in> set (frames s) \<longrightarrow>
        frames s' = frames s \<and> pointer s' = pointer s \<and>
        (\<exists>k<length (frames s). frames s ! k = pg \<and> ref_bits s' = (ref_bits s)[k := 1])"
      "pg \<notin> set (frames s) \<and> \<not> int (length (frames s)) < frame_size \<longrightarrow>
        second_chance_victim s < length (frames s) \<and>
        frames s' = (frames s)[second_chance_victim s := pg] \<and>
        ref_bits s' =
          (cleared (length (frames s)) (ref_bits s) (nat (pointer s))
             (passed_over (length (frames s)) (ref_bits s) (nat (pointer s))))
            [second_chance_victim s := 1] \<and>
        pointer s' = int (Suc (second_chance_victim s) mod length (frames s))"
      "pg \<notin> set (frames s) \<and> int (length (frames s)) < frame_size \<longrightarrow>
        frames s' = frames s @ [pg] \<and> ref_bits s' = ref_bits s @ [1] \<and>
        pointer s' = pointer s"
    by blast
  have run: "second_chance (prefix @ pg # rest) frame_size =
       finish (case second_chance_step frame_size pg s of
                 Inl e \<Rightarrow> Inl e
               | Inr s' \<Rightarrow> for_each (second_chance_step frame_size) rest s')"
    using assms(2) by (simp add: second_chance_def for_each_append)
  have full: "\<exists>s' k. second_chance_step frame_size pg s = Inr s' \<and> k \<le> ?c \<and>
           (\<forall>i<k. ref_bits s ! ((?p + i) mod ?c) = 1) \<and>
           (k < ?c \<longrightarrow> ref_bits s ! ((?p + k) mod ?c) = 0) \<and>
           frames s' = (frames s)[(?p + k) mod ?c := pg] \<and>
           length (ref_bits s') = ?c \<and>
           (\<forall>j<?c. ref_bits s' ! j =
              (if j = (?p + k) mod ?c then 1
               else if j \<in> (\<lambda>i. (?p + i) mod ?c) ` {..<k} then 0
               else ref_bits s ! j)) \<and>
           pointer s' = (int ((?p + k) mod ?c) + 1) mod frame_size"
    if miss: "pg \<notin> set (frames s)" and len: "int (length (frames s)) = frame_size"
  proof -
    let ?k = "passed_over ?c (ref_bits s) ?p"
    let ?v = "(?p + ?k) mod ?c"
    from len have c: "length (frames s) = ?c" by simp
    from assms(1) have c0: "0 < ?c" by simp
    then have v: "?v < ?c" by (rule mod_less_divisor)
    from miss len s'(4) c have
      fr: "frames s' = (frames s)[?v := pg]"
      and rb: "ref_bits s' = (cleared ?c (ref_bits s) ?p ?k)[?v := 1]"
      and pt: "pointer s' = int (Suc ?v mod ?c)"
      by (simp_all add: second_chance_victim_def)
    have set1: "ref_bits s ! ((?p + i) mod ?c) = 1" if "i < ?k" for i
    proof -
      from that have nz: "ref_bits s ! ((?p + i) mod ?c) \<noteq> 0" by (rule passed_over_set)
      have "(?p + i) mod ?c < length (ref_bits s)" using c0 lb c by simp
      then have "ref_bits s ! ((?p + i) mod ?c) \<in> set (ref_bits s)" by (rule nth_mem)
      with bits01 nz show ?thesis by auto
    qed
    have stop: "?k < ?c \<longrightarrow> ref_bits s ! ?v = 0"
      by (auto dest: passed_over_stop)
    have nth: "\<forall>j<?c. ref_bits s' ! j =
              (if j = ?v then 1
               else if j \<in> (\<lambda>i. (?p + i) mod ?c) ` {..<?k} then 0
               else ref_bits s ! j)"
      unfolding rb using v by (simp add: swept_bits_nth)
    have lr: "length (ref_bits s') = ?c" unfolding rb by simp
    have pt': "pointer s' = (int ?v + 1) mod frame_size"
      unfolding pt using assms(1) by (simp add: zmod_int add.commute)
    from s'(1) passed_over_le [of ?c "ref_bits s" ?p] set1 stop fr lr nth pt'
    show ?thesis by blast
  qed
  have hit: "\<exists>s' k. second_chance_step frame_size pg s = Inr s' \<and>
           k < length (frames s) \<and> frames s ! k = pg \<and>
           ref_bits s' = (ref_bits s)[k := 1] \<and>
           frames s' = frames s \<and> pointer s' = pointer s \<and>
           \<not> page_fault (last (steps_acc s'))"
    if "pg \<in> set (frames s)"
    using that s'(1,2,3) by (auto simp: stepped_last)
  have load: "\<exists>s'. second_chance_step frame_size pg s = Inr s' \<and>
           frames s' = frames s @ [pg] \<and> ref_bits s' = ref_bits s @ [1] \<and>
           pointer s' = pointer s"
    if "pg \<notin> set (frames s)" "int (length (frames s)) < frame_size"
    using that s'(1,5) by auto
  from run ptr full hit load show ?thesis by blast
qed

theorem second_chance_pointer_sweep_witness:
  "(1::int) \<le> 3 \<and>
   for_each (second_chance_step 3) [1, 2, 3, 4, 2] init_clock_state =
     Inr \<lparr>frames = [4, 2, 3], page_faults = 4,
          steps_acc =
            [\<lparr>page = 1, frames_before = [], frames_after = [1], page_fault = True\<rparr>,
             \<lparr>page = 2, frames_before = [1], frames_after = [1, 2], page_fault = True\<rparr>,
             \<lparr>page = 3, frames_before = [1, 2], frames_after = [1, 2, 3], page_fault = True\<rparr>,
             \<lparr>page = 4, frames_before = [1, 2, 3], frames_after = [4, 2, 3],
               page_fault = True\<rparr>,
             \<lparr>page = 2, frames_before = [4, 2, 3], frames_after = [4, 2, 3],
               page_fault = False\<rparr>],
          ref_bits = [1, 1, 0], pointer = 1\<rparr> \<and>
   (\<exists>s' k. second_chance_step 3 5
        \<lparr>frames = [4, 2, 3], page_faults = 4,
          steps_acc =
            [\<lparr>page = 1, frames_before = [], frames_after = [1], page_fault = True\<rparr>,
             \<lparr>page = 2, frames_before = [1], frames_after = [1, 2], page_fault = True\<rparr>,
             \<lparr>page = 3, frames_before = [1, 2], frames_after = [1, 2, 3], page_fault = True\<rparr>,
             \<lparr>page = 4, frames_before = [1, 2, 3], frames_after = [4, 2, 3],
               page_fault = True\<rparr>,
             \<lparr>page = 2, frames_before = [4, 2, 3], frames_after = [4, 2, 3],
               page_fault = False\<rparr>],
          ref_bits = [1, 1, 0], pointer = 1\<rparr> = Inr s' \<and>
      k \<le> 3 \<and>
      (\<forall>i<k. [1, 1, 0 :: int] ! ((1 + i) mod 3) = 1) \<and>
      (k < 3 \<longrightarrow> [1, 1, 0 :: int] ! ((1 + k) mod 3) = 0) \<and>
      frames s' = [4, 2, 3][(1 + k) mod 3 := 5] \<and>
      pointer s' = (int ((1 + k) mod 3) + 1) mod 3)"
proof -
  let ?S = "\<lparr>frames = [4, 2, 3], page_faults = 4,
          steps_acc =
            [\<lparr>page = 1, frames_before = [], frames_after = [1], page_fault = True\<rparr>,
             \<lparr>page = 2, frames_before = [1], frames_after = [1, 2], page_fault = True\<rparr>,
             \<lparr>page = 3, frames_before = [1, 2], frames_after = [1, 2, 3], page_fault = True\<rparr>,
             \<lparr>page = 4, frames_before = [1, 2, 3], frames_after = [4, 2, 3],
               page_fault = True\<rparr>,
             \<lparr>page = 2, frames_before = [4, 2, 3], frames_after = [4, 2, 3],
               page_fault = False\<rparr>],
          ref_bits = [1, 1, 0], pointer = 1\<rparr>"
  have cap: "(1::int) \<le> 3" by simp
  have run: "for_each (second_chance_step 3) [1, 2, 3, 4, 2] init_clock_state = Inr ?S"
    by code_simp
  from second_chance_pointer_sweep [OF cap run, of 5 "[]"]
  obtain s' k where "second_chance_step 3 5 ?S = Inr s'" "k \<le> 3"
    "\<forall>i<k. [1, 1, 0 :: int] ! ((1 + i) mod 3) = 1"
    "k < 3 \<longrightarrow> [1, 1, 0 :: int] ! ((1 + k) mod 3) = 0"
    "frames s' = [4, 2, 3][(1 + k) mod 3 := 5]"
    "pointer s' = (int ((1 + k) mod 3) + 1) mod 3"
    by auto
  with cap run show ?thesis by blast
qed

text \<open>
  C9. For every reference sequence and every capacity of at least 1, \<open>clock\<close> and
  \<open>second_chance\<close> return the same dictionary: the same fault count and the same step
  records, from the first reference on.
\<close>

theorem clock_returns_what_second_chance_returns:
  assumes "1 \<le> frame_size"
  shows "\<exists>res. second_chance reference_string frame_size = Inr res \<and>
               clock reference_string frame_size = Inr res"
  using second_chance_run [OF assms, of reference_string]
  by (auto simp: clock_eq_second_chance [OF assms])

theorem clock_returns_what_second_chance_returns_witness:
  "(1::int) \<le> 3 \<and>
   (\<exists>res. second_chance [1, 2, 3, 4, 1, 2, 5] 3 = Inr res \<and>
          clock [1, 2, 3, 4, 1, 2, 5] 3 = Inr res)"
  using clock_returns_what_second_chance_returns [of 3 "[1, 2, 3, 4, 1, 2, 5]"] by simp

text \<open>
  C10. For every reference sequence and every capacity of at least 1, \<open>optimal\<close>,
  \<open>second_chance\<close> and \<open>clock\<close> return one step record per position of the reference
  sequence, each starting from the frames the previous one ended with, and at every
  position where the record is a fault with full frames, \<open>frames_after\<close> is
  \<open>frames_before\<close> with one slot overwritten by the new page: the two lists have the same
  length, they differ at that slot, and every other slot holds the same page at the same
  position.
\<close>

theorem full_fault_overwrites_one_slot:
  assumes "1 \<le> frame_size"
  shows "\<exists>ro rs rc.
     optimal reference_string frame_size = Inr ro \<and>
     second_chance reference_string frame_size = Inr rs \<and>
     clock reference_string frame_size = Inr rc \<and>
     overwrites_one_slot frame_size reference_string ro \<and>
     overwrites_one_slot frame_size reference_string rs \<and>
     overwrites_one_slot frame_size reference_string rc"
proof -
  from optimal_run_in_place [OF assms, of reference_string] obtain ro where
    ro: "optimal reference_string frame_size = Inr ro"
    and "overwrites_one_slot frame_size reference_string ro"
    by (auto intro: overwrites_one_slotI)
  moreover from second_chance_run [OF assms, of reference_string] obtain rs where
    rs: "second_chance reference_string frame_size = Inr rs"
    and "overwrites_one_slot frame_size reference_string rs"
    by (auto intro: overwrites_one_slotI)
  moreover from clock_run [OF assms, of reference_string] obtain rc where
    rc: "clock reference_string frame_size = Inr rc"
    and "overwrites_one_slot frame_size reference_string rc"
    by (auto intro: overwrites_one_slotI)
  ultimately show ?thesis by blast
qed

theorem full_fault_overwrites_one_slot_witness:
  "(1::int) \<le> 2 \<and>
   (\<exists>ro rs rc.
     (optimal [1, 2, 3, 1] 2 = Inr ro \<and> second_chance [1, 2, 3, 1] 2 = Inr rs \<and>
      clock [1, 2, 3, 1] 2 = Inr rc) \<and>
     (length (steps ro) = 4 \<and> length (steps rs) = 4 \<and> length (steps rc) = 4) \<and>
     (steps ro ! 2 =
        \<lparr>page = 3, frames_before = [1, 2], frames_after = [1, 3], page_fault = True\<rparr> \<and>
      steps rs ! 2 =
        \<lparr>page = 3, frames_before = [1, 2], frames_after = [3, 2], page_fault = True\<rparr> \<and>
      steps rc ! 3 =
        \<lparr>page = 1, frames_before = [3, 2], frames_after = [3, 1], page_fault = True\<rparr>) \<and>
     (\<exists>k<length (frames_before (steps ro ! 2)).
        length (frames_after (steps ro ! 2)) = length (frames_before (steps ro ! 2)) \<and>
        frames_after (steps ro ! 2) ! k = [1, 2, 3, 1] ! 2 \<and>
        frames_before (steps ro ! 2) ! k \<noteq> [1, 2, 3, 1] ! 2 \<and>
        (\<forall>j<length (frames_before (steps ro ! 2)).
           j \<noteq> k \<longrightarrow> frames_after (steps ro ! 2) ! j = frames_before (steps ro ! 2) ! j)) \<and>
     (\<exists>k<length (frames_before (steps rs ! 2)).
        length (frames_after (steps rs ! 2)) = length (frames_before (steps rs ! 2)) \<and>
        frames_after (steps rs ! 2) ! k = [1, 2, 3, 1] ! 2 \<and>
        frames_before (steps rs ! 2) ! k \<noteq> [1, 2, 3, 1] ! 2 \<and>
        (\<forall>j<length (frames_before (steps rs ! 2)).
           j \<noteq> k \<longrightarrow> frames_after (steps rs ! 2) ! j = frames_before (steps rs ! 2) ! j)) \<and>
     (\<exists>k<length (frames_before (steps rc ! 3)).
        length (frames_after (steps rc ! 3)) = length (frames_before (steps rc ! 3)) \<and>
        frames_after (steps rc ! 3) ! k = [1, 2, 3, 1] ! 3 \<and>
        frames_before (steps rc ! 3) ! k \<noteq> [1, 2, 3, 1] ! 3 \<and>
        (\<forall>j<length (frames_before (steps rc ! 3)).
           j \<noteq> k \<longrightarrow> frames_after (steps rc ! 3) ! j = frames_before (steps rc ! 3) ! j)))"
proof -
  have cap: "(1::int) \<le> 2" by simp
  have runo: "optimal [1, 2, 3, 1] 2 =
      Inr \<lparr>faults = 3,
           steps = [\<lparr>page = 1, frames_before = [], frames_after = [1], page_fault = True\<rparr>,
             \<lparr>page = 2, frames_before = [1], frames_after = [1, 2], page_fault = True\<rparr>,
             \<lparr>page = 3, frames_before = [1, 2], frames_after = [1, 3], page_fault = True\<rparr>,
             \<lparr>page = 1, frames_before = [1, 3], frames_after = [1, 3], page_fault = False\<rparr>]\<rparr>"
    by code_simp
  have runs: "second_chance [1, 2, 3, 1] 2 =
      Inr \<lparr>faults = 4,
           steps = [\<lparr>page = 1, frames_before = [], frames_after = [1], page_fault = True\<rparr>,
             \<lparr>page = 2, frames_before = [1], frames_after = [1, 2], page_fault = True\<rparr>,
             \<lparr>page = 3, frames_before = [1, 2], frames_after = [3, 2], page_fault = True\<rparr>,
             \<lparr>page = 1, frames_before = [3, 2], frames_after = [3, 1], page_fault = True\<rparr>]\<rparr>"
    by code_simp
  have runc: "clock [1, 2, 3, 1] 2 =
      Inr \<lparr>faults = 4,
           steps = [\<lparr>page = 1, frames_before = [], frames_after = [1], page_fault = True\<rparr>,
             \<lparr>page = 2, frames_before = [1], frames_after = [1, 2], page_fault = True\<rparr>,
             \<lparr>page = 3, frames_before = [1, 2], frames_after = [3, 2], page_fault = True\<rparr>,
             \<lparr>page = 1, frames_before = [3, 2], frames_after = [3, 1], page_fault = True\<rparr>]\<rparr>"
    by code_simp
  from full_fault_overwrites_one_slot [OF cap, of "[1, 2, 3, 1]"] obtain ro rs rc where
    ro: "optimal [1, 2, 3, 1] 2 = Inr ro" and oo: "overwrites_one_slot 2 [1, 2, 3, 1] ro"
    and rs: "second_chance [1, 2, 3, 1] 2 = Inr rs" and os: "overwrites_one_slot 2 [1, 2, 3, 1] rs"
    and rc: "clock [1, 2, 3, 1] 2 = Inr rc" and oc: "overwrites_one_slot 2 [1, 2, 3, 1] rc"
    by blast
  from ro runo have o2: "steps ro ! 2 =
      \<lparr>page = 3, frames_before = [1, 2], frames_after = [1, 3], page_fault = True\<rparr>"
    by auto
  from rs runs have s2: "steps rs ! 2 =
      \<lparr>page = 3, frames_before = [1, 2], frames_after = [3, 2], page_fault = True\<rparr>"
    by auto
  from rc runc have c3: "steps rc ! 3 =
      \<lparr>page = 1, frames_before = [3, 2], frames_after = [3, 1], page_fault = True\<rparr>"
    by auto
  from oo os oc
  have len: "length (steps ro) = 4 \<and> length (steps rs) = 4 \<and> length (steps rc) = 4"
    by (simp add: overwrites_one_slot_def)
  have runs3: "optimal [1, 2, 3, 1] 2 = Inr ro \<and> second_chance [1, 2, 3, 1] 2 = Inr rs \<and>
      clock [1, 2, 3, 1] 2 = Inr rc"
    using ro rs rc by simp
  have recs: "steps ro ! 2 =
        \<lparr>page = 3, frames_before = [1, 2], frames_after = [1, 3], page_fault = True\<rparr> \<and>
      steps rs ! 2 =
        \<lparr>page = 3, frames_before = [1, 2], frames_after = [3, 2], page_fault = True\<rparr> \<and>
      steps rc ! 3 =
        \<lparr>page = 1, frames_before = [3, 2], frames_after = [3, 1], page_fault = True\<rparr>"
    using o2 s2 c3 by simp
  have e1: "\<exists>k<length (frames_before (steps ro ! 2)).
        length (frames_after (steps ro ! 2)) = length (frames_before (steps ro ! 2)) \<and>
        frames_after (steps ro ! 2) ! k = [1, 2, 3, 1] ! 2 \<and>
        frames_before (steps ro ! 2) ! k \<noteq> [1, 2, 3, 1] ! 2 \<and>
        (\<forall>j<length (frames_before (steps ro ! 2)).
           j \<noteq> k \<longrightarrow> frames_after (steps ro ! 2) ! j = frames_before (steps ro ! 2) ! j)"
    by (rule overwrites_one_slotD [OF oo]) (simp_all add: o2)
  have e2: "\<exists>k<length (frames_before (steps rs ! 2)).
        length (frames_after (steps rs ! 2)) = length (frames_before (steps rs ! 2)) \<and>
        frames_after (steps rs ! 2) ! k = [1, 2, 3, 1] ! 2 \<and>
        frames_before (steps rs ! 2) ! k \<noteq> [1, 2, 3, 1] ! 2 \<and>
        (\<forall>j<length (frames_before (steps rs ! 2)).
           j \<noteq> k \<longrightarrow> frames_after (steps rs ! 2) ! j = frames_before (steps rs ! 2) ! j)"
    by (rule overwrites_one_slotD [OF os]) (simp_all add: s2)
  have e3: "\<exists>k<length (frames_before (steps rc ! 3)).
        length (frames_after (steps rc ! 3)) = length (frames_before (steps rc ! 3)) \<and>
        frames_after (steps rc ! 3) ! k = [1, 2, 3, 1] ! 3 \<and>
        frames_before (steps rc ! 3) ! k \<noteq> [1, 2, 3, 1] ! 3 \<and>
        (\<forall>j<length (frames_before (steps rc ! 3)).
           j \<noteq> k \<longrightarrow> frames_after (steps rc ! 3) ! j = frames_before (steps rc ! 3) ! j)"
    by (rule overwrites_one_slotD [OF oc]) (simp_all add: c3)
  show ?thesis
    by (rule conjI [OF cap], rule exI [of _ ro], rule exI [of _ rs], rule exI [of _ rc])
       (intro conjI runs3 len recs e1 e2 e3)
qed

end
